theory Spec2Isabelle
  imports Complex_Main "HOL-Library.AList"
begin

section \<open>JavaScript values, records and collections\<close>

text \<open>
  A record of the store is a JavaScript object; a collection file holds JSON text.  An
  object is kept as the list of its own properties in insertion order.  Numbers are the
  integers and the three values that are not finite; property names that look like array
  indices (which JavaScript enumerates first) are not treated specially: every statement
  below reads properties by name.
\<close>

datatype jval =
    JNull
  | JBool bool
  | JNum int
  | JInfinity bool    \<comment> \<open>\<^verbatim>\<open>Infinity\<close> when true, \<^verbatim>\<open>-Infinity\<close> when false\<close>
  | JNaN
  | JStr string
  | JArr "jval list"
  | JObj "(string \<times> jval) list"

type_synonym obj = "(string \<times> jval) list"

type_synonym collection = "obj list"

text \<open>
  \<^verbatim>\<open>o.k\<close>: the value of property \<open>k\<close>, \<open>None\<close> standing for \<^verbatim>\<open>undefined\<close>.  A list that
  names a property twice is read as an object literal or a JSON text is: the last one counts.
\<close>

definition get_prop :: "obj \<Rightarrow> string \<Rightarrow> jval option" where
  "get_prop ob k = map_of (rev ob) k"

text \<open>\<^verbatim>\<open>o[k] = v\<close>: an existing property keeps its place, a new one goes last.\<close>

definition set_prop :: "string \<Rightarrow> jval \<Rightarrow> obj \<Rightarrow> obj" where
  "set_prop k v ob = AList.update k v ob"

text \<open>\<^verbatim>\<open>{...dst, ...src}\<close>: the properties of \<open>src\<close> assigned in order onto \<open>dst\<close>.\<close>

definition spread :: "obj \<Rightarrow> obj \<Rightarrow> obj" where
  "spread src dst = fold (\<lambda>(k, v). set_prop k v) src dst"

text \<open>JavaScript truthiness, as \<^verbatim>\<open>data.id || ...\<close> tests it.\<close>

fun truthy :: "jval \<Rightarrow> bool" where
  "truthy JNull = False"
| "truthy (JBool b) = b"
| "truthy (JNum n) = (n \<noteq> 0)"
| "truthy (JInfinity b) = True"
| "truthy JNaN = False"
| "truthy (JStr s) = (s \<noteq> [])"
| "truthy (JArr xs) = True"
| "truthy (JObj ps) = True"

text \<open>
  \<^verbatim>\<open>record.id === id\<close>, the left side being part of a collection just parsed from its file:
  primitives are compared by value (\<^verbatim>\<open>NaN\<close> equals nothing), while an array or an object of
  a fresh parse is identical to nothing the caller holds.
\<close>

fun strict_eq :: "jval \<Rightarrow> jval \<Rightarrow> bool" where
  "strict_eq JNull JNull = True"
| "strict_eq (JBool a) (JBool b) = (a = b)"
| "strict_eq (JNum a) (JNum b) = (a = b)"
| "strict_eq (JInfinity a) (JInfinity b) = (a = b)"
| "strict_eq (JStr a) (JStr b) = (a = b)"
| "strict_eq _ _ = False"

definition id_is :: "jval \<Rightarrow> obj \<Rightarrow> bool" where
  "id_is i r = (case get_prop r ''id'' of None \<Rightarrow> False | Some v \<Rightarrow> strict_eq v i)"

text \<open>
  What \<^verbatim>\<open>JSON.parse(JSON.stringify(v))\<close> gives: JSON has no number that is not finite, and
  \<^verbatim>\<open>JSON.stringify\<close> writes \<^verbatim>\<open>null\<close> for one, at any depth.
\<close>

fun persist :: "jval \<Rightarrow> jval" where
  "persist (JInfinity b) = JNull"
| "persist JNaN = JNull"
| "persist (JArr xs) = JArr (map persist xs)"
| "persist (JObj ps) = JObj (map (map_prod id persist) ps)"
| "persist v = v"

definition persist_obj :: "obj \<Rightarrow> obj" where
  "persist_obj r = map (map_prod id persist) r"

text \<open>\<^verbatim>\<open>Array.prototype.findIndex\<close>, with \<open>None\<close> for \<open>-1\<close>.\<close>

fun findIndex :: "('a \<Rightarrow> bool) \<Rightarrow> 'a list \<Rightarrow> nat option" where
  "findIndex P [] = None"
| "findIndex P (x # xs) =
     (if P x then Some 0 else (case findIndex P xs of None \<Rightarrow> None | Some i \<Rightarrow> Some (Suc i)))"

text \<open>\<^verbatim>\<open>String.prototype.includes\<close>.\<close>

fun str_includes :: "string \<Rightarrow> string \<Rightarrow> bool" where
  "str_includes [] pat = (pat = [])"
| "str_includes (c # cs) pat = (take (length pat) (c # cs) = pat \<or> str_includes cs pat)"

text \<open>Decimal digits of a number, as a template literal prints it.\<close>

function show_nat :: "nat \<Rightarrow> string" where
  "show_nat n =
     (if n < 10 then [''0123456789'' ! n]
      else show_nat (n div 10) @ [''0123456789'' ! (n mod 10)])"
  by pat_completeness auto
termination
  by (relation "measure id") auto

declare show_nat.simps [simp del]

definition show_int :: "int \<Rightarrow> string" where
  "show_int n = (if n < 0 then ''-'' @ show_nat (nat (- n)) else show_nat (nat n))"

text \<open>\<^verbatim>\<open>Array.prototype.join(',')\<close> on strings.\<close>

fun commas :: "string list \<Rightarrow> string" where
  "commas [] = []"
| "commas [x] = x"
| "commas (x # y # ys) = x @ '','' @ commas (y # ys)"

text \<open>\<^verbatim>\<open>`${v}`\<close>: the string a template literal makes of a value.\<close>

fun js_string :: "jval \<Rightarrow> string" where
  "js_string JNull = ''null''"
| "js_string (JBool b) = (if b then ''true'' else ''false'')"
| "js_string (JNum n) = show_int n"
| "js_string (JInfinity b) = (if b then ''Infinity'' else ''-Infinity'')"
| "js_string JNaN = ''NaN''"
| "js_string (JStr s) = s"
| "js_string (JArr xs) = commas (map (\<lambda>x. if x = JNull then [] else js_string x) xs)"
| "js_string (JObj ps) = ''[object Object]''"

text \<open>
  A text that \<^verbatim>\<open>/bin/sh\<close> reads as itself between double quotes: no double quote, dollar,
  backquote or backslash, and no NUL, which \<^verbatim>\<open>execSync\<close> refuses.
\<close>

definition shell_safe :: "string \<Rightarrow> bool" where
  "shell_safe x = list_all (\<lambda>c. c \<notin> set [CHR 0x22, CHR 0x24, CHR 0x60, CHR 0x5C, CHR 0x00]) x"

section \<open>The database directory and its git repository\<close>

datatype descr =
    MsgInitial
  | MsgCreate jval string
  | MsgUpdate jval string
  | MsgDelete jval string
  | MsgTxCommitted string nat

text \<open>The commit message, as the template literals of the code spell it.\<close>

fun descr_text :: "descr \<Rightarrow> string" where
  "descr_text MsgInitial = ''Initial database setup''"
| "descr_text (MsgCreate i coll) = ''Create record '' @ js_string i @ '' in '' @ coll"
| "descr_text (MsgUpdate i coll) = ''Update record '' @ js_string i @ '' in '' @ coll"
| "descr_text (MsgDelete i coll) = ''Delete record '' @ js_string i @ '' from '' @ coll"
| "descr_text (MsgTxCommitted t n) =
     ''Transaction '' @ t @ '' committed - '' @ show_nat n @ '' operations''"

datatype error =
    RecordNotFound jval string
  | Enoent string
  | TxAlreadyActive string
  | TxNotFoundOrNotActive string
  | TxNotFound string
  | TxNotActive string string
  | UnsupportedOperation string
  | ExecError string

datatype logline =
    ErrCommitting string
  | ErrReverting string
  | ErrMetadata
  | ErrHead string
  | ErrBeginning error
  | ErrExecuting string error
  | ErrCommittingTx string error
  | ErrRollingBack string error

record metadata =
  version :: string
  created :: string
  lastModified :: string
  totalRecords :: nat
  collections :: "(string \<times> nat \<times> string) list"

text \<open>
  A tree is what git tracks of the directory: collection files, by collection name, and
  \<^verbatim>\<open>metadata.json\<close>.
\<close>

record tree =
  t_files :: "(string \<times> collection) list"
  t_meta :: "metadata option"

record commit =
  parent :: "nat option"
  snapshot :: tree
  message :: descr

text \<open>
  Where \<^verbatim>\<open>path.join(dataPath, collection + '.json')\<close> lands.  A name without a slash lands
  in \<^verbatim>\<open>data/\<close>.  Another name may land anywhere: \<open>Stray seen dir\<close> tells whether git sees
  the path (it lies in the working tree and outside \<^verbatim>\<open>.git\<close>) and whether the directory it
  lies in exists.  That directory is taken to be one that neither the program nor git makes
  or removes, as the database directory itself or a directory outside it.  Two names are
  taken to land on two files, neither of them the metadata.
\<close>

datatype place = InData | Stray bool bool

text \<open>
  The directory of a \<^verbatim>\<open>DatabaseService\<close>: the collection files written so far, by
  collection name; the metadata file; whether \<^verbatim>\<open>data/\<close> exists; where each collection name
  lands; the git index; the commits in the order they were made (a commit's hash is its
  position; git never forgets a commit here); the commit \<^verbatim>\<open>HEAD\<close> points to; and the lines
  written with \<^verbatim>\<open>console.error\<close>.
\<close>

record database =
  files :: "(string \<times> collection) list"
  meta :: "metadata option"
  data_dir :: bool
  place :: "string \<Rightarrow> place"
  index :: tree
  objects :: "commit list"
  HEAD :: nat
  stderr :: "logline list"

definition seen :: "database \<Rightarrow> string \<Rightarrow> bool" where
  "seen d coll = (case place d coll of InData \<Rightarrow> True | Stray s dir \<Rightarrow> s)"

text \<open>The directory the file of the collection lies in exists.\<close>

definition dir_exists :: "database \<Rightarrow> string \<Rightarrow> bool" where
  "dir_exists d coll = (case place d coll of InData \<Rightarrow> data_dir d | Stray s dir \<Rightarrow> dir)"

definition in_data :: "database \<Rightarrow> (string \<times> collection) list \<Rightarrow> bool" where
  "in_data d fs = list_ex (\<lambda>(coll, rs). place d coll = InData) fs"

section \<open>The environment of a call\<close>

text \<open>
  What a call reads from outside the program: the clock, the random generator, and whether
  a \<^verbatim>\<open>git\<close> command run through \<^verbatim>\<open>execSync\<close> fails for a reason of its own (a lock file, a
  missing binary), with the message of the error it throws.  The commit message goes
  unescaped between double quotes into a line for \<^verbatim>\<open>/bin/sh\<close>.  When it holds a character
  that the shell reads there, the line is not the commit asked for: a quote ends the string,
  a dollar or a backquote may run a command.  What the line does then is the field
  \<open>shell\<close>: given the message and the directory, the directory it leaves and the message of
  the error that \<^verbatim>\<open>execSync\<close> throws, if it throws.
\<close>

record env =
  iso_now :: string             \<comment> \<open>\<^verbatim>\<open>new Date().toISOString()\<close> for records and transactions\<close>
  op_now :: string              \<comment> \<open>the same reading taken in \<^verbatim>\<open>executeInTransaction\<close>\<close>
  meta_now :: string            \<comment> \<open>the first reading taken in \<^verbatim>\<open>updateMetadata\<close>\<close>
  meta_now2 :: string           \<comment> \<open>the second reading taken there\<close>
  now_ms :: nat                 \<comment> \<open>\<^verbatim>\<open>Date.now()\<close>\<close>
  random36 :: string            \<comment> \<open>\<^verbatim>\<open>Math.random().toString(36)\<close>\<close>
  add_fault :: "string option"      \<comment> \<open>\<^verbatim>\<open>git add .\<close> throws\<close>
  commit_fault :: "string option"   \<comment> \<open>\<^verbatim>\<open>git commit\<close> throws for another reason than an unchanged tree\<close>
  reset_fault :: "string option"    \<comment> \<open>\<^verbatim>\<open>git reset --hard\<close> throws for another reason than an unknown hash\<close>
  revparse_fault :: "string option" \<comment> \<open>\<^verbatim>\<open>git rev-parse HEAD\<close> throws for another reason than a missing HEAD\<close>
  shell :: "string \<Rightarrow> database \<Rightarrow> string option \<times> database"
    \<comment> \<open>what \<^verbatim>\<open>git commit -m "..."\<close> does when \<^verbatim>\<open>/bin/sh\<close> does not read the message as itself\<close>

text \<open>\<^verbatim>\<open>`${Date.now()}-${Math.random().toString(36).substr(2, 9)}`\<close>\<close>

definition generateId :: "env \<Rightarrow> string" where
  "generateId e = show_nat (now_ms e) @ ''-'' @ take 9 (drop 2 (random36 e))"

section \<open>Git\<close>

definition empty_tree :: tree where
  "empty_tree = \<lparr>t_files = [], t_meta = None\<rparr>"

text \<open>What git sees of the directory.\<close>

definition worktree :: "database \<Rightarrow> tree" where
  "worktree d = \<lparr>t_files = filter (\<lambda>(coll, rs). seen d coll) (files d), t_meta = meta d\<rparr>"

definition head_known :: "database \<Rightarrow> bool" where
  "head_known d = (HEAD d < length (objects d))"

definition head_tree :: "database \<Rightarrow> tree" where
  "head_tree d = (if head_known d then snapshot (objects d ! HEAD d) else empty_tree)"

text \<open>Two trees with the same content at every path.\<close>

definition same_tree :: "tree \<Rightarrow> tree \<Rightarrow> bool" where
  "same_tree a b =
     (list_all (\<lambda>p. map_of (t_files a) p = map_of (t_files b) p)
        (map fst (t_files a) @ map fst (t_files b))
      \<and> t_meta a = t_meta b)"

text \<open>\<^verbatim>\<open>git add .\<close>: the index becomes what git sees of the directory.\<close>

definition git_add :: "database \<Rightarrow> database" where
  "git_add d = d\<lparr>index := worktree d\<rparr>"

text \<open>
  \<^verbatim>\<open>git commit -m "msg"\<close>, for a message the shell reads as itself: it fails when the index
  holds what \<^verbatim>\<open>HEAD\<close> holds, and the error \<^verbatim>\<open>execSync\<close> throws then names the command and
  what git wrote on \<^verbatim>\<open>stderr\<close>, which is nothing; otherwise the index becomes a new commit
  on top of \<^verbatim>\<open>HEAD\<close>.
\<close>

definition git_commit :: "descr \<Rightarrow> database \<Rightarrow> string + database" where
  "git_commit msg d =
     (if same_tree (index d) (head_tree d) then
        Inl (''Command failed: git commit -m '' @ [CHR 0x22] @ descr_text msg
               @ [CHR 0x22, CHR 0x0A])
      else Inr (d\<lparr>objects := objects d @
                     [\<lparr>parent = (if head_known d then Some (HEAD d) else None),
                       snapshot = index d, message = msg\<rparr>],
                  HEAD := length (objects d)\<rparr>))"

text \<open>
  \<^verbatim>\<open>git reset --hard h\<close>: fails on an unknown hash; otherwise \<^verbatim>\<open>HEAD\<close> and the index are set
  to the commit, every path of the commit is restored, every other tracked path is removed,
  and an untracked file stays.  Git makes \<^verbatim>\<open>data/\<close> for a file it restores there and removes
  it with the last file it removes from it.
\<close>

definition git_reset :: "nat \<Rightarrow> database \<Rightarrow> database option" where
  "git_reset h d =
     (if h < length (objects d) then
        (let tgt = snapshot (objects d ! h);
             fs = t_files tgt @
                   filter (\<lambda>(p, c). p \<notin> set (map fst (t_files tgt))
                                    \<and> p \<notin> set (map fst (t_files (index d)))) (files d)
         in
         Some (d\<lparr>HEAD := h,
                 index := tgt,
                 files := fs,
                 data_dir := (if in_data d fs then True
                              else if in_data d (files d) then False else data_dir d),
                 meta := (case t_meta tgt of
                            Some m \<Rightarrow> Some m
                          | None \<Rightarrow> (case t_meta (index d) of Some m \<Rightarrow> None | None \<Rightarrow> meta d))\<rparr>))
      else None)"

text \<open>\<^verbatim>\<open>git rev-parse HEAD\<close>\<close>

definition git_rev_parse :: "database \<Rightarrow> nat option" where
  "git_rev_parse d = (if head_known d then Some (HEAD d) else None)"

text \<open>
  \<^verbatim>\<open>git log\<close> from a hash, newest first: the commit and its ancestors.  The walk goes down
  the commits from the newest; a parent is always older than its child.
\<close>

fun ancestry :: "commit list \<Rightarrow> nat \<Rightarrow> nat list" where
  "ancestry [] h = []"
| "ancestry (c # cs) h =
     (if h = length cs then h # (case parent c of None \<Rightarrow> [] | Some p \<Rightarrow> ancestry cs p)
      else ancestry cs h)"

definition git_log :: "database \<Rightarrow> nat list" where
  "git_log d = ancestry (rev (objects d)) (HEAD d)"

section \<open>DatabaseService\<close>

text \<open>
  \<^verbatim>\<open>getCollection\<close>: the records parsed from the file of the collection, none when the file
  is not there.  What is parsed from JSON text holds no number that is not finite, whatever
  list stands for the text here.
\<close>

definition getCollection :: "string \<Rightarrow> database \<Rightarrow> collection" where
  "getCollection coll d =
     (if dir_exists d coll then
        (case map_of (files d) coll of None \<Rightarrow> [] | Some rs \<Rightarrow> map persist_obj rs)
      else [])"


text \<open>
  \<^verbatim>\<open>updateMetadata\<close>.  Assigning to the property \<^verbatim>\<open>__proto__\<close> of \<^verbatim>\<open>metadata.collections\<close>
  sets its prototype and adds no entry.
\<close>

definition updateMetadata :: "string \<Rightarrow> nat \<Rightarrow> env \<Rightarrow> database \<Rightarrow> database" where
  "updateMetadata coll recordCount e d =
     (case meta d of
        None \<Rightarrow> d\<lparr>stderr := stderr d @ [ErrMetadata]\<rparr>
      | Some m \<Rightarrow>
          (let cols = (if coll = ''__proto__'' then collections m
                       else AList.update coll (recordCount, meta_now2 e) (collections m)) in
           d\<lparr>meta := Some (m\<lparr>lastModified := meta_now e,
                               collections := cols,
                               totalRecords := sum_list (map (\<lambda>(c, n, t). n) cols)\<rparr>)\<rparr>))"

text \<open>
  \<^verbatim>\<open>saveCollection\<close>: \<^verbatim>\<open>fs.writeFile\<close> of \<^verbatim>\<open>JSON.stringify(records)\<close> makes no directory and
  throws when the directory of the file is not there; then the metadata is updated.
\<close>

definition saveCollection ::
  "string \<Rightarrow> collection \<Rightarrow> env \<Rightarrow> database \<Rightarrow> error + database" where
  "saveCollection coll records e d =
     (if dir_exists d coll then
        Inr (updateMetadata coll (length records) e
               (d\<lparr>files := AList.update coll (map persist_obj records) (files d)\<rparr>))
      else Inl (Enoent coll))"

text \<open>The \<^verbatim>\<open>catch\<close> of \<^verbatim>\<open>commitChanges\<close>: it writes a line unless the message of the error
  says that nothing changed, and it does not throw.\<close>

definition commit_catch :: "string \<Rightarrow> database \<Rightarrow> database" where
  "commit_catch msg d =
     (if \<not> str_includes msg ''nothing to commit'' then d\<lparr>stderr := stderr d @ [ErrCommitting msg]\<rparr>
      else d)"

text \<open>
  \<^verbatim>\<open>commitChanges\<close>: \<^verbatim>\<open>git add .\<close>, then \<^verbatim>\<open>git commit -m "${message}"\<close> through the shell,
  both inside one \<^verbatim>\<open>try\<close>.
\<close>

definition commitChanges :: "descr \<Rightarrow> env \<Rightarrow> database \<Rightarrow> database" where
  "commitChanges msg e d =
     (case add_fault e of
        Some m \<Rightarrow> commit_catch m d
      | None \<Rightarrow>
          (let d1 = git_add d in
           if \<not> shell_safe (descr_text msg) then
             (case shell e (descr_text msg) d1 of
                (Some m, d2) \<Rightarrow> commit_catch m d2
              | (None, d2) \<Rightarrow> d2)
           else
             (case commit_fault e of
                Some m \<Rightarrow> commit_catch m d1
              | None \<Rightarrow>
                  (case git_commit msg d1 of
                     Inl m \<Rightarrow> commit_catch m d1
                   | Inr d2 \<Rightarrow> d2))))"

definition new_id :: "obj \<Rightarrow> env \<Rightarrow> jval" where
  "new_id data e =
     (case get_prop data ''id'' of
        Some v \<Rightarrow> if truthy v then v else JStr (generateId e)
      | None \<Rightarrow> JStr (generateId e))"

definition newRecord :: "obj \<Rightarrow> env \<Rightarrow> obj" where
  "newRecord data e =
     set_prop ''updatedAt'' (JStr (iso_now e))
       (set_prop ''createdAt'' (JStr (iso_now e))
          (set_prop ''id'' (new_id data e) (spread data [])))"

definition createRecord :: "string \<Rightarrow> obj \<Rightarrow> env \<Rightarrow> database \<Rightarrow> (error + obj) \<times> database" where
  "createRecord coll data e d =
     (let records = getCollection coll d;
          r = newRecord data e
      in case saveCollection coll (records @ [r]) e d of
           Inl err \<Rightarrow> (Inl err, d)
         | Inr d1 \<Rightarrow> (Inr r, commitChanges (MsgCreate (new_id data e) coll) e d1))"

definition merged :: "obj \<Rightarrow> jval \<Rightarrow> obj \<Rightarrow> env \<Rightarrow> obj" where
  "merged old i data e =
     set_prop ''updatedAt'' (JStr (iso_now e))
       (set_prop ''id'' i (spread data (spread old [])))"

definition updateRecord ::
  "string \<Rightarrow> jval \<Rightarrow> obj \<Rightarrow> env \<Rightarrow> database \<Rightarrow> (error + obj) \<times> database" where
  "updateRecord coll i data e d =
     (let records = getCollection coll d in
      case findIndex (id_is i) records of
        None \<Rightarrow> (Inl (RecordNotFound i coll), d)
      | Some n \<Rightarrow>
          (let r = merged (records ! n) i data e in
           case saveCollection coll (records[n := r]) e d of
             Inl err \<Rightarrow> (Inl err, d)
           | Inr d1 \<Rightarrow> (Inr r, commitChanges (MsgUpdate i coll) e d1)))"

definition deleteRecord ::
  "string \<Rightarrow> jval \<Rightarrow> env \<Rightarrow> database \<Rightarrow> (error + obj) \<times> database" where
  "deleteRecord coll i e d =
     (let records = getCollection coll d in
      case findIndex (id_is i) records of
        None \<Rightarrow> (Inl (RecordNotFound i coll), d)
      | Some n \<Rightarrow>
          (let deletedRecord = records ! n in
           case saveCollection coll (take n records @ drop (Suc n) records) e d of
             Inl err \<Rightarrow> (Inl err, d)
           | Inr d1 \<Rightarrow> (Inr deletedRecord, commitChanges (MsgDelete i coll) e d1)))"

definition revertToCommit :: "nat \<Rightarrow> env \<Rightarrow> database \<Rightarrow> (error + bool) \<times> database" where
  "revertToCommit h e d =
     (case reset_fault e of
        Some m \<Rightarrow> (Inl (ExecError m), d\<lparr>stderr := stderr d @ [ErrReverting m]\<rparr>)
      | None \<Rightarrow>
          (case git_reset h d of
             None \<Rightarrow> (Inl (ExecError ''unknown revision''),
                       d\<lparr>stderr := stderr d @ [ErrReverting ''unknown revision'']\<rparr>)
           | Some d' \<Rightarrow> (Inr True, d')))"

section \<open>TransactionService\<close>

datatype status = Active | Committed | RolledBack

datatype opstatus = Pending | Completed | Failed

text \<open>
  The arguments handed on to the store (\<^verbatim>\<open>...args\<close>): the collection, the record id and
  the fields.  \<^verbatim>\<open>create\<close> passes on the collection and the fields, \<^verbatim>\<open>update\<close> all three,
  \<^verbatim>\<open>delete\<close> the collection and the id, as the routes call them.
\<close>

record opargs =
  arg_collection :: string
  arg_recordId :: jval
  arg_data :: obj

record oprecord =
  op_operation :: string
  op_args :: opargs
  op_timestamp :: string
  op_status :: opstatus
  op_result :: "obj option"
  op_error :: "error option"

record transaction =
  tx_id :: string
  startTime :: string
  checkpointHash :: nat
  operations :: "oprecord list"
  status :: status
  endTime :: "string option"
  finalCommitHash :: "nat option"

text \<open>
  The service: the database directory it works on and its \<^verbatim>\<open>Map\<close> of active transactions,
  kept in insertion order.
\<close>

record sys =
  db :: database
  active :: "(string \<times> transaction) list"

text \<open>\<^verbatim>\<open>`tx_${Date.now()}_${Math.random().toString(36).substr(2, 6)}`\<close>\<close>

definition generateTransactionId :: "env \<Rightarrow> string" where
  "generateTransactionId e = ''tx_'' @ show_nat (now_ms e) @ ''_'' @ take 6 (drop 2 (random36 e))"

definition getCurrentCommitHash :: "env \<Rightarrow> database \<Rightarrow> (error + nat) \<times> database" where
  "getCurrentCommitHash e d =
     (case revparse_fault e of
        Some m \<Rightarrow> (Inl (ExecError m), d\<lparr>stderr := stderr d @ [ErrHead m]\<rparr>)
      | None \<Rightarrow>
          (case git_rev_parse d of
             None \<Rightarrow> (Inl (ExecError ''unknown revision HEAD''),
                       d\<lparr>stderr := stderr d @ [ErrHead ''unknown revision HEAD'']\<rparr>)
           | Some h \<Rightarrow> (Inr h, d)))"

text \<open>\<^verbatim>\<open>transactionId || this.generateTransactionId()\<close>\<close>

definition begin_id :: "string option \<Rightarrow> env \<Rightarrow> string" where
  "begin_id transactionId e =
     (case transactionId of
        None \<Rightarrow> generateTransactionId e
      | Some x \<Rightarrow> if x \<noteq> [] then x else generateTransactionId e)"

definition beginTransaction :: "string option \<Rightarrow> env \<Rightarrow> sys \<Rightarrow> (error + transaction) \<times> sys" where
  "beginTransaction transactionId e s =
     (let i = begin_id transactionId e in
      if map_of (active s) i \<noteq> None then (Inl (TxAlreadyActive i), s)
      else
        (case getCurrentCommitHash e (db s) of
           (Inl err, d') \<Rightarrow>
             (Inl err, s\<lparr>db := d'\<lparr>stderr := stderr d' @ [ErrBeginning err]\<rparr>\<rparr>)
         | (Inr h, d') \<Rightarrow>
             (let t = \<lparr>tx_id = i, startTime = iso_now e, checkpointHash = h, operations = [],
                       status = Active, endTime = None, finalCommitHash = None\<rparr>
              in (Inr t, s\<lparr>db := d', active := AList.update i t (active s)\<rparr>))))"

text \<open>The \<^verbatim>\<open>switch\<close> of \<^verbatim>\<open>executeInTransaction\<close>.\<close>

definition dispatch ::
  "string \<Rightarrow> opargs \<Rightarrow> env \<Rightarrow> database \<Rightarrow> (error + obj) \<times> database" where
  "dispatch operation a e d =
     (if operation = ''create'' then createRecord (arg_collection a) (arg_data a) e d
      else if operation = ''update'' then
        updateRecord (arg_collection a) (arg_recordId a) (arg_data a) e d
      else if operation = ''delete'' then deleteRecord (arg_collection a) (arg_recordId a) e d
      else (Inl (UnsupportedOperation operation), d))"

fun status_name :: "status \<Rightarrow> string" where
  "status_name Active = ''active''"
| "status_name Committed = ''committed''"
| "status_name RolledBack = ''rolled_back''"

definition executeInTransaction ::
  "string \<Rightarrow> string \<Rightarrow> opargs \<Rightarrow> env \<Rightarrow> sys \<Rightarrow> (error + obj) \<times> sys" where
  "executeInTransaction transactionId operation a e s =
     (case map_of (active s) transactionId of
        None \<Rightarrow> (Inl (TxNotFoundOrNotActive transactionId), s)
      | Some t \<Rightarrow>
          if status t \<noteq> Active then (Inl (TxNotActive transactionId (status_name (status t))), s)
          else
            (case dispatch operation a e (db s) of
               (Inr r, d') \<Rightarrow>
                 (let operationRecord =
                        \<lparr>op_operation = operation, op_args = a, op_timestamp = op_now e,
                         op_status = Completed, op_result = Some r, op_error = None\<rparr>
                  in (Inr r,
                      \<lparr>db = d',
                       active = AList.update transactionId
                         (t\<lparr>operations := operations t @ [operationRecord]\<rparr>) (active s)\<rparr>))
             | (Inl err, d') \<Rightarrow>
                 (let failedRecord =
                        \<lparr>op_operation = operation, op_args = a, op_timestamp = op_now e,
                         op_status = Failed, op_result = None, op_error = Some err\<rparr>
                  in (Inl err,
                      \<lparr>db = d'\<lparr>stderr := stderr d' @ [ErrExecuting transactionId err]\<rparr>,
                       active = AList.update transactionId
                         (t\<lparr>operations := operations t @ [failedRecord]\<rparr>) (active s)\<rparr>))))"


definition rollbackTransaction :: "string \<Rightarrow> env \<Rightarrow> sys \<Rightarrow> (error + transaction) \<times> sys" where
  "rollbackTransaction transactionId e s =
     (case map_of (active s) transactionId of
        None \<Rightarrow> (Inl (TxNotFound transactionId), s)
      | Some t \<Rightarrow>
          if status t \<noteq> Active then (Inl (TxNotActive transactionId (status_name (status t))), s)
          else
            (case revertToCommit (checkpointHash t) e (db s) of
               (Inl err, d') \<Rightarrow>
                 (Inl err,
                  \<lparr>db = d'\<lparr>stderr := stderr d' @ [ErrRollingBack transactionId err]\<rparr>,
                   active = active s\<rparr>)
             | (Inr ok, d') \<Rightarrow>
                 (Inr (t\<lparr>status := RolledBack, endTime := Some (iso_now e)\<rparr>),
                  \<lparr>db = d', active = AList.delete transactionId (active s)\<rparr>)))"

text \<open>One entry of the list that \<^verbatim>\<open>abortAllTransactions\<close> and
  \<^verbatim>\<open>cleanupStaleTransactions\<close> return.\<close>

record outcome =
  o_id :: string
  o_status :: string
  o_result :: "transaction option"
  o_error :: "error option"

text \<open>
  The loop both functions run over the ids they collected: roll each back inside a
  \<^verbatim>\<open>try\<close>, and push an entry either way.  Each attempt reads its own environment.
\<close>

fun rollback_each ::
  "string \<Rightarrow> string \<Rightarrow> (string \<Rightarrow> env) \<Rightarrow> string list \<Rightarrow> sys \<Rightarrow> outcome list \<times> sys" where
  "rollback_each ok bad envs [] s = ([], s)"
| "rollback_each ok bad envs (i # ids) s =
     (case rollbackTransaction i (envs i) s of
        (Inr t, s1) \<Rightarrow>
          (case rollback_each ok bad envs ids s1 of
             (results, s2) \<Rightarrow>
               (\<lparr>o_id = i, o_status = ok, o_result = Some t, o_error = None\<rparr> # results, s2))
      | (Inl err, s1) \<Rightarrow>
          (case rollback_each ok bad envs ids s1 of
             (results, s2) \<Rightarrow>
               (\<lparr>o_id = i, o_status = bad, o_result = None, o_error = Some err\<rparr> # results, s2)))"

definition abortAllTransactions :: "(string \<Rightarrow> env) \<Rightarrow> sys \<Rightarrow> outcome list \<times> sys" where
  "abortAllTransactions envs s =
     rollback_each ''rolled_back'' ''error'' envs (map fst (active s)) s"

text \<open>
  \<^verbatim>\<open>(now - new Date(transaction.startTime)) / (1000 * 60) > maxAgeMinutes\<close>.  The parser of
  \<^verbatim>\<open>Date\<close> is a parameter, giving the milliseconds of a time stamp or \<open>None\<close> for an invalid
  date, whose age compares greater than nothing.  The difference of two dates is exact; the
  division gives the double nearest the quotient, and that rounding is the parameter \<open>fl\<close>.
\<close>

definition isStale ::
  "(real \<Rightarrow> real) \<Rightarrow> int \<Rightarrow> (string \<Rightarrow> int option) \<Rightarrow> real \<Rightarrow> transaction \<Rightarrow> bool" where
  "isStale fl now date_ms maxAgeMinutes t =
     (case date_ms (startTime t) of
        None \<Rightarrow> False
      | Some start \<Rightarrow>
          (let ageMinutes = fl (real_of_int (now - start) / (1000 * 60))
           in ageMinutes > maxAgeMinutes))"

definition staleTransactions ::
  "(real \<Rightarrow> real) \<Rightarrow> int \<Rightarrow> (string \<Rightarrow> int option) \<Rightarrow> real \<Rightarrow> sys \<Rightarrow> string list" where
  "staleTransactions fl now date_ms maxAgeMinutes s =
     map fst (filter (\<lambda>(i, t). isStale fl now date_ms maxAgeMinutes t) (active s))"

definition cleanupStaleTransactions ::
  "(real \<Rightarrow> real) \<Rightarrow> real \<Rightarrow> int \<Rightarrow> (string \<Rightarrow> int option) \<Rightarrow> (string \<Rightarrow> env) \<Rightarrow> sys
     \<Rightarrow> outcome list \<times> sys" where
  "cleanupStaleTransactions fl maxAgeMinutes now date_ms envs s =
     rollback_each ''auto_rolled_back'' ''cleanup_error'' envs
       (staleTransactions fl now date_ms maxAgeMinutes s) s"

section \<open>Histories of calls\<close>

text \<open>
  A caller's request to either service, with the environment the call meets; \<open>step\<close> is
  the state the call leaves behind, whatever it returned.
\<close>

datatype action =
    Create string obj env
  | Update string jval obj env
  | Delete string jval env
  | Begin "string option" env
  | Execute string string opargs env
  | Commit string env
  | Rollback string env








text \<open>Every file of the directory is seen by git and known to its index, and no commit
  holds a file that git does not see.\<close>

definition tracked :: "database \<Rightarrow> bool" where
  "tracked d =
     (list_all (\<lambda>p. p \<in> set (map fst (t_files (index d))) \<and> seen d p) (map fst (files d))
      \<and> list_all (\<lambda>c. list_all (seen d) (map fst (t_files (snapshot c)))) (objects d)
      \<and> (meta d = None \<or> t_meta (index d) \<noteq> None))"


text \<open>A value, and a record, that JSON text holds as it is.\<close>

definition json_val :: "jval \<Rightarrow> bool" where
  "json_val v = (persist v = v)"

definition json_safe :: "obj \<Rightarrow> bool" where
  "json_safe r = (persist_obj r = r)"

text \<open>The ids of a collection, record by record.\<close>

definition ids_of :: "collection \<Rightarrow> jval option list" where
  "ids_of records = map (\<lambda>r. get_prop r ''id'') records"

text \<open>A call returned rather than threw.\<close>

definition returned :: "'e + 'a \<Rightarrow> bool" where
  "returned r = (case r of Inl err \<Rightarrow> False | Inr v \<Rightarrow> True)"

text \<open>Git keeps the commits it had: those of \<open>d\<close> are the first of \<open>d'\<close>.\<close>

definition keeps_commits :: "database \<Rightarrow> database \<Rightarrow> bool" where
  "keeps_commits d d' = (take (length (objects d)) (objects d') = objects d)"

section \<open>Outcomes of a sweep\<close>

definition succeeded :: "outcome \<Rightarrow> bool" where
  "succeeded oc = (o_result oc \<noteq> None \<and> o_error oc = None)"

definition failed :: "outcome \<Rightarrow> bool" where
  "failed oc = (o_result oc = None \<and> o_error oc \<noteq> None)"

text \<open>
  What \<^verbatim>\<open>rollbackTransaction\<close> needs to go through for an id: an entry of the active map
  with status active, a checkpoint that git knows, and a \<^verbatim>\<open>git reset\<close> that does not fail
  on its own in the environment of that attempt.
\<close>

definition can_roll_back :: "(string \<Rightarrow> env) \<Rightarrow> sys \<Rightarrow> string \<Rightarrow> bool" where
  "can_roll_back envs s i =
     (case map_of (active s) i of
        None \<Rightarrow> False
      | Some t \<Rightarrow> status t = Active \<and> checkpointHash t < length (objects (db s))
                  \<and> reset_fault (envs i) = None)"

section \<open>Sample states\<close>

definition env0 :: env where
  "env0 = \<lparr>iso_now = ''2024-05-01T10:00:00.000Z'', op_now = ''2024-05-01T10:00:00.000Z'',
           meta_now = ''2024-05-01T10:00:00.001Z'', meta_now2 = ''2024-05-01T10:00:00.001Z'',
           now_ms = 1714557600000, random36 = ''0.k3x9q2m7pzd'',
           add_fault = None, commit_fault = None, reset_fault = None, revparse_fault = None,
           shell = (\<lambda>text d. (Some ''/bin/sh: 1: Syntax error: Unterminated quoted string'', d))\<rparr>"

definition env1 :: env where
  "env1 = env0\<lparr>iso_now := ''2024-05-01T10:05:00.000Z'', op_now := ''2024-05-01T10:04:59.998Z'',
               meta_now := ''2024-05-01T10:05:00.002Z'', meta_now2 := ''2024-05-01T10:05:00.003Z'',
               now_ms := 1714557900000, random36 := ''0.b81tt0c4w5''\<rparr>"

definition meta0 :: metadata where
  "meta0 = \<lparr>version = ''1.0.0'', created = ''2024-05-01T09:00:00.000Z'',
            lastModified = ''2024-05-01T09:00:00.000Z'', totalRecords = 0, collections = []\<rparr>"

text \<open>Names without a slash land in \<^verbatim>\<open>data/\<close>; the others land, here, outside the
  repository, where there is no directory for them.\<close>

definition place0 :: "string \<Rightarrow> place" where
  "place0 coll = (if CHR ''/'' \<in> set coll then Stray False False else InData)"

text \<open>A directory as \<^verbatim>\<open>initialize\<close> leaves a new one: an empty \<^verbatim>\<open>data/\<close>, the metadata
  file, and one commit holding it.\<close>

definition db0 :: database where
  "db0 = \<lparr>files = [], meta = Some meta0, data_dir = True, place = place0,
          index = \<lparr>t_files = [], t_meta = Some meta0\<rparr>,
          objects = [\<lparr>parent = None, snapshot = \<lparr>t_files = [], t_meta = Some meta0\<rparr>,
                      message = MsgInitial\<rparr>],
          HEAD = 0, stderr = []\<rparr>"

definition alice :: obj where
  "alice = [(''name'', JStr ''Alice''), (''age'', JNum 30)]"

definition bob :: obj where
  "bob = [(''id'', JStr ''u1''), (''name'', JStr ''Bob''), (''createdAt'', JStr ''1999'')]"

definition eve :: obj where
  "eve = [(''id'', JStr ''u1''), (''name'', JStr ''Eve'')]"


text \<open>A record whose id is the number that \<^verbatim>\<open>JSON.parse\<close> makes of \<^verbatim>\<open>1e999\<close>.\<close>

definition dora :: obj where
  "dora = [(''id'', JInfinity True), (''name'', JStr ''Dora'')]"


text \<open>The new directory after Bob's record has been created in \<^verbatim>\<open>users\<close>.\<close>

definition db1 :: database where
  "db1 = snd (createRecord ''users'' bob env0 db0)"

text \<open>An environment in which \<^verbatim>\<open>git commit\<close> finds the index locked.\<close>

definition env_locked :: env where
  "env_locked = env0\<lparr>commit_fault := Some ''fatal: Unable to create .git/index.lock: File exists''\<rparr>"

text \<open>The service after \<^verbatim>\<open>beginTransaction('t1')\<close> on that directory, and the transaction it
  registered.\<close>

definition sys1 :: sys where
  "sys1 = snd (beginTransaction (Some ''t1'') env0 \<lparr>db = db1, active = []\<rparr>)"

definition tx1 :: transaction where
  "tx1 = \<lparr>tx_id = ''t1'', startTime = ''2024-05-01T10:00:00.000Z'', checkpointHash = 1,
          operations = [], status = Active, endTime = None, finalCommitHash = None\<rparr>"

definition args_alice :: opargs where
  "args_alice = \<lparr>arg_collection = ''users'', arg_recordId = JNull, arg_data = alice\<rparr>"

text \<open>Three transactions over that directory: one begun an hour ago, one begun an hour ago
  whose rollback will find git failing, and one begun five minutes ago.\<close>

definition tx_at :: "string \<Rightarrow> string \<Rightarrow> transaction" where
  "tx_at i start =
     \<lparr>tx_id = i, startTime = start, checkpointHash = 0, operations = [], status = Active,
      endTime = None, finalCommitHash = None\<rparr>"

definition sys3 :: sys where
  "sys3 = \<lparr>db = db1,
           active = [(''old'', tx_at ''old'' ''2024-05-01T09:00:00.000Z''),
                     (''stuck'', tx_at ''stuck'' ''2024-05-01T09:00:00.000Z''),
                     (''new'', tx_at ''new'' ''2024-05-01T10:00:00.000Z'')]\<rparr>"

definition envs3 :: "string \<Rightarrow> env" where
  "envs3 i = (if i = ''stuck'' then env1\<lparr>reset_fault := Some ''fatal: index.lock exists''\<rparr>
              else env1)"

definition date3 :: "string \<Rightarrow> int option" where
  "date3 x =
     (if x = ''2024-05-01T09:00:00.000Z'' then Some 1714554000000
      else if x = ''2024-05-01T10:00:00.000Z'' then Some 1714557600000
      else None)"



section \<open>Facts about objects and files\<close>

subsection \<open>Objects\<close>

lemma map_of_rev_distinct: "distinct (map fst ob) \<Longrightarrow> map_of (rev ob) = map_of ob"
proof (induction ob)
  case Nil
  then show ?case by simp
next
  case (Cons p ob)
  obtain k v where p: "p = (k, v)" by (cases p)
  from Cons.prems p have "k \<notin> fst ` set ob" by auto
  then have "map_of ob k = None" by (simp add: map_of_eq_None_iff)
  with Cons p show ?case by (auto simp: map_add_def fun_eq_iff split: option.splits)
qed

lemma distinct_set_prop: "distinct (map fst ob) \<Longrightarrow> distinct (map fst (set_prop k v ob))"
  by (simp add: set_prop_def distinct_update)

lemma get_set_prop:
  assumes "distinct (map fst ob)"
  shows "get_prop (set_prop k v ob) k' = (if k' = k then Some v else get_prop ob k')"
proof -
  have "map_of (rev (set_prop k v ob)) = map_of (set_prop k v ob)"
    using assms by (intro map_of_rev_distinct distinct_set_prop)
  moreover have "map_of (rev ob) = map_of ob"
    using assms by (rule map_of_rev_distinct)
  ultimately show ?thesis
    by (simp add: get_prop_def set_prop_def update_conv')
qed

lemma distinct_spread: "distinct (map fst dst) \<Longrightarrow> distinct (map fst (spread src dst))"
  unfolding spread_def
  by (induction src arbitrary: dst) (auto simp: distinct_set_prop)

lemma get_prop_Cons:
  "get_prop ((a, b) # src) k =
     (case get_prop src k of Some v \<Rightarrow> Some v | None \<Rightarrow> if k = a then Some b else None)"
  by (simp add: get_prop_def map_add_def split: option.splits)

lemma get_spread:
  "distinct (map fst dst) \<Longrightarrow>
   get_prop (spread src dst) k =
     (case get_prop src k of Some v \<Rightarrow> Some v | None \<Rightarrow> get_prop dst k)"
proof (induction src arbitrary: dst)
  case Nil
  then show ?case by (simp add: spread_def get_prop_def)
next
  case (Cons p src)
  obtain a b where p: "p = (a, b)" by (cases p)
  have "spread (p # src) dst = spread src (set_prop a b dst)"
    by (simp add: spread_def p)
  with Cons.IH [of "set_prop a b dst"] Cons.prems p show ?case
    by (simp add: distinct_set_prop get_set_prop get_prop_Cons split: option.splits)
qed

lemma get_prop_Nil [simp]: "get_prop [] k = None"
  by (simp add: get_prop_def)

lemma get_spread_Nil: "get_prop (spread src []) k = get_prop src k"
  by (simp add: get_spread split: option.splits)

lemma get_newRecord:
  "get_prop (newRecord data e) k =
     (if k = ''updatedAt'' \<or> k = ''createdAt'' then Some (JStr (iso_now e))
      else if k = ''id'' then Some (new_id data e)
      else get_prop data k)"
  by (simp add: newRecord_def get_set_prop distinct_set_prop distinct_spread get_spread_Nil)

lemma get_merged:
  "get_prop (merged old i data e) k =
     (if k = ''updatedAt'' then Some (JStr (iso_now e))
      else if k = ''id'' then Some i
      else (case get_prop data k of Some v \<Rightarrow> Some v | None \<Rightarrow> get_prop old k))"
  by (simp add: merged_def get_set_prop distinct_set_prop distinct_spread get_spread get_spread_Nil
        split: option.splits)

lemma strict_eq_eq: "strict_eq v i \<Longrightarrow> v = i"
  by (cases v; cases i) auto

lemma id_is_get: "id_is i r \<Longrightarrow> get_prop r ''id'' = Some i"
  by (auto simp: id_is_def split: option.splits dest: strict_eq_eq)


lemma findIndex_Some:
  "findIndex P xs = Some n \<Longrightarrow> n < length xs \<and> P (xs ! n) \<and> \<not> list_ex P (take n xs)"
proof (induction xs arbitrary: n)
  case Nil
  then show ?case by simp
next
  case (Cons x xs)
  then show ?case
    by (cases n) (auto split: if_splits option.splits)
qed


subsection \<open>What JSON keeps\<close>

lemma persist_idem [simp]: "persist (persist v) = persist v"
  by (induction v rule: persist.induct) auto

lemma persist_obj_idem [simp]: "persist_obj (persist_obj r) = persist_obj r"
  by (induction r) (auto simp: persist_obj_def)

lemma map_persist_obj_idem [simp]: "map persist_obj (map persist_obj rs) = map persist_obj rs"
  by simp

lemma get_persist_obj: "get_prop (persist_obj r) k = map_option persist (get_prop r k)"
proof -
  have "map_of (map (map_prod id persist) xs) k = map_option persist (map_of xs k)" for xs
    by (induction xs) auto
  then show ?thesis
    by (simp add: get_prop_def persist_obj_def rev_map)
qed

lemma persist_truthy_str: "persist (JStr x) = JStr x"
  by simp

lemma strict_eq_persist: "strict_eq (persist v) i \<Longrightarrow> persist i = i"
  by (cases v; cases i) auto

lemma id_is_persisted: "id_is i (persist_obj r) \<Longrightarrow> persist i = i"
  by (auto simp: id_is_def get_persist_obj split: option.splits dest: strict_eq_persist)

lemma json_safe_get: "json_safe r \<Longrightarrow> get_prop r k = Some v \<Longrightarrow> persist v = v"
  using get_persist_obj [of r k] by (simp add: json_safe_def)

subsection \<open>Files\<close>

lemma files_commit_catch [simp]: "files (commit_catch m d) = files d"
  by (simp add: commit_catch_def)

lemma place_commit_catch [simp]: "place (commit_catch m d) = place d"
  by (simp add: commit_catch_def)

lemma data_dir_commit_catch [simp]: "data_dir (commit_catch m d) = data_dir d"
  by (simp add: commit_catch_def)

text \<open>A commit whose message the shell reads as itself leaves the files where they are.\<close>

lemma files_commitChanges [simp]:
  "shell_safe (descr_text msg) \<Longrightarrow> files (commitChanges msg e d) = files d"
  by (simp add: commitChanges_def git_add_def git_commit_def Let_def
        split: option.splits sum.splits if_splits)

lemma place_commitChanges [simp]:
  "shell_safe (descr_text msg) \<Longrightarrow> place (commitChanges msg e d) = place d"
  by (simp add: commitChanges_def git_add_def git_commit_def Let_def
        split: option.splits sum.splits if_splits)

lemma data_dir_commitChanges [simp]:
  "shell_safe (descr_text msg) \<Longrightarrow> data_dir (commitChanges msg e d) = data_dir d"
  by (simp add: commitChanges_def git_add_def git_commit_def Let_def
        split: option.splits sum.splits if_splits)

lemma files_updateMetadata [simp]: "files (updateMetadata coll n e d) = files d"
  by (simp add: updateMetadata_def Let_def split: option.splits)

lemma place_updateMetadata [simp]: "place (updateMetadata coll n e d) = place d"
  by (simp add: updateMetadata_def Let_def split: option.splits)

lemma data_dir_updateMetadata [simp]: "data_dir (updateMetadata coll n e d) = data_dir d"
  by (simp add: updateMetadata_def Let_def split: option.splits)

lemma dir_exists_cong:
  "place d' = place d \<Longrightarrow> data_dir d' = data_dir d \<Longrightarrow> dir_exists d' c = dir_exists d c"
  by (cases "place d c") (auto simp: dir_exists_def)

lemma seen_cong: "place d' = place d \<Longrightarrow> seen d' c = seen d c"
  by (simp add: seen_def)

lemma saveCollection_Inr:
  "saveCollection coll rs e d = Inr d1 \<Longrightarrow>
   dir_exists d coll \<and> files d1 = AList.update coll (map persist_obj rs) (files d)
   \<and> place d1 = place d \<and> data_dir d1 = data_dir d"
  by (auto simp: saveCollection_def split: if_splits)

lemma saveCollection_ok:
  "dir_exists d coll \<Longrightarrow> \<exists>d1. saveCollection coll rs e d = Inr d1"
  by (simp add: saveCollection_def)

lemma saveCollection_Inl:
  "saveCollection coll rs e d = Inl err \<Longrightarrow> \<not> dir_exists d coll \<and> err = Enoent coll"
  by (auto simp: saveCollection_def split: if_splits)

lemma getCollection_persisted [simp]:
  "map persist_obj (getCollection c d) = getCollection c d"
  by (simp add: getCollection_def split: option.splits)

lemma getCollection_update:
  "files d' = AList.update coll (map persist_obj rs) (files d) \<Longrightarrow> place d' = place d \<Longrightarrow>
   data_dir d' = data_dir d \<Longrightarrow> dir_exists d coll \<Longrightarrow>
   getCollection c d' = (if c = coll then map persist_obj rs else getCollection c d)"
  using dir_exists_cong [of d' d c]
  by (simp add: getCollection_def update_conv')

lemma getCollection_nonempty: "getCollection c d \<noteq> [] \<Longrightarrow> dir_exists d c"
  by (auto simp: getCollection_def split: if_splits)

lemma generateId_nonempty: "generateId e \<noteq> []"
  by (simp add: generateId_def)

lemma truthy_new_id: "truthy (new_id data e)"
  by (simp add: new_id_def generateId_nonempty split: option.splits)

text \<open>\<^verbatim>\<open>createRecord\<close> when the directory of the file is there, and when it is not.\<close>

lemma createRecord_result:
  "dir_exists d coll \<Longrightarrow> fst (createRecord coll data e d) = Inr (newRecord data e)"
  by (simp add: createRecord_def Let_def saveCollection_def)

lemma createRecord_enoent:
  "\<not> dir_exists d coll \<Longrightarrow> createRecord coll data e d = (Inl (Enoent coll), d)"
  by (simp add: createRecord_def Let_def saveCollection_def)

lemma createRecord_collection:
  assumes "dir_exists d coll" and safe: "shell_safe (descr_text (MsgCreate (new_id data e) coll))"
  shows "getCollection c (snd (createRecord coll data e d)) =
     (if c = coll then getCollection coll d @ [persist_obj (newRecord data e)]
      else getCollection c d)"
proof -
  let ?rs = "getCollection coll d @ [newRecord data e]"
  from saveCollection_ok [OF assms(1)] obtain d1 where s: "saveCollection coll ?rs e d = Inr d1"
    by blast
  from saveCollection_Inr [OF s]
  have "getCollection c (commitChanges (MsgCreate (new_id data e) coll) e d1) =
          (if c = coll then map persist_obj ?rs else getCollection c d)"
    using safe by (intro getCollection_update) (simp_all add: assms(1))
  with s show ?thesis
    by (simp add: createRecord_def Let_def)
qed



lemma updateRecord_found:
  assumes "findIndex (id_is i) (getCollection coll d) = Some n"
    and safe: "shell_safe (descr_text (MsgUpdate i coll))"
  shows "fst (updateRecord coll i data e d) = Inr (merged (getCollection coll d ! n) i data e)
   \<and> getCollection c (snd (updateRecord coll i data e d)) =
       (if c = coll then
          (getCollection coll d)[n := persist_obj (merged (getCollection coll d ! n) i data e)]
        else getCollection c d)"
proof -
  let ?recs = "getCollection coll d"
  let ?r = "merged (?recs ! n) i data e"
  from findIndex_Some [OF assms(1)] have "?recs \<noteq> []" by auto
  then have dir: "dir_exists d coll" by (rule getCollection_nonempty)
  from saveCollection_ok [OF dir] obtain d1
    where s: "saveCollection coll (?recs[n := ?r]) e d = Inr d1"
    by blast
  from saveCollection_Inr [OF s]
  have "getCollection c (commitChanges (MsgUpdate i coll) e d1) =
          (if c = coll then map persist_obj (?recs[n := ?r]) else getCollection c d)"
    using safe by (intro getCollection_update) (simp_all add: dir)
  moreover have "map persist_obj (?recs[n := ?r]) = ?recs[n := persist_obj ?r]"
    by (simp add: map_update)
  ultimately show ?thesis
    using s assms(1) by (simp add: updateRecord_def Let_def)
qed

section \<open>Facts about the store\<close>

subsection \<open>Command lines\<close>

lemma shell_safe_append [simp]: "shell_safe (a @ b) = (shell_safe a \<and> shell_safe b)"
  by (simp add: shell_safe_def)

lemma shell_safe_Nil [simp]: "shell_safe []"
  by (simp add: shell_safe_def)

lemma shell_safe_Cons [simp]:
  "shell_safe (c # cs) =
     (c \<noteq> CHR 0x22 \<and> c \<noteq> CHR 0x24 \<and> c \<noteq> CHR 0x60 \<and> c \<noteq> CHR 0x5C \<and> c \<noteq> CHR 0x00
      \<and> shell_safe cs)"
  by (simp add: shell_safe_def)

lemma shell_safe_digit: "n < 10 \<Longrightarrow> shell_safe [''0123456789'' ! n]"
proof -
  assume "n < 10"
  then have "''0123456789'' ! n \<in> set ''0123456789''"
    by (intro nth_mem) simp
  moreover have "\<forall>c \<in> set ''0123456789''. shell_safe [c]"
    by simp
  ultimately show ?thesis
    by blast
qed

lemma shell_safe_show_nat [simp]: "shell_safe (show_nat n)"
proof (induction n rule: show_nat.induct)
  case (1 n)
  show ?case
  proof (cases "n < 10")
    case True
    then show ?thesis
      by (subst show_nat.simps) (simp add: shell_safe_digit del: shell_safe_Cons)
  next
    case False
    with 1 show ?thesis
      by (subst show_nat.simps) (simp add: shell_safe_digit del: shell_safe_Cons)
  qed
qed

lemma shell_safe_ids:
  "shell_safe (generateId env0)" "shell_safe (generateId env1)"
  by (simp_all add: generateId_def env0_def env1_def)

lemma shell_safe_users: "shell_safe ''users''"
  by simp

subsection \<open>The directory stays\<close>

lemma frame_createRecord [simp]:
  assumes "shell_safe (descr_text (MsgCreate (new_id data e) coll))"
  shows "place (snd (createRecord coll data e d)) = place d"
    and "data_dir (snd (createRecord coll data e d)) = data_dir d"
  using assms by (simp_all add: createRecord_def Let_def saveCollection_def)

lemma frame_updateRecord [simp]:
  assumes "shell_safe (descr_text (MsgUpdate i coll))"
  shows "place (snd (updateRecord coll i data e d)) = place d"
    and "data_dir (snd (updateRecord coll i data e d)) = data_dir d"
  using assms by (simp_all add: updateRecord_def Let_def saveCollection_def split: option.splits)

lemma frame_deleteRecord [simp]:
  assumes "shell_safe (descr_text (MsgDelete i coll))"
  shows "place (snd (deleteRecord coll i e d)) = place d"
    and "data_dir (snd (deleteRecord coll i e d)) = data_dir d"
  using assms by (simp_all add: deleteRecord_def Let_def saveCollection_def split: option.splits)

lemma dir_exists_createRecord [simp]:
  "shell_safe (descr_text (MsgCreate (new_id data e) coll)) \<Longrightarrow>
   dir_exists (snd (createRecord coll data e d)) c = dir_exists d c"
  by (rule dir_exists_cong) simp_all

subsection \<open>Records that JSON holds as they are\<close>

lemma persist_set_prop:
  "persist_obj (set_prop k v ob) = set_prop k (persist v) (persist_obj ob)"
  by (induction ob) (auto simp: persist_obj_def set_prop_def)

lemma persist_spread:
  "persist_obj (spread src dst) = spread (persist_obj src) (persist_obj dst)"
proof (induction src arbitrary: dst)
  case Nil
  then show ?case by (simp add: spread_def persist_obj_def)
next
  case (Cons p src)
  obtain a b where p: "p = (a, b)" by (cases p)
  have "spread (p # src) dst = spread src (set_prop a b dst)"
    by (simp add: spread_def p)
  moreover have "spread (persist_obj (p # src)) (persist_obj dst)
                   = spread (persist_obj src) (set_prop a (persist b) (persist_obj dst))"
    by (simp add: spread_def p persist_obj_def)
  ultimately show ?case
    using Cons.IH [of "set_prop a b dst"] by (simp add: persist_set_prop)
qed

lemma json_safe_new_id: "json_safe data \<Longrightarrow> persist (new_id data e) = new_id data e"
  by (auto simp: new_id_def split: option.splits dest: json_safe_get)

lemma json_safe_newRecord:
  "json_safe data \<Longrightarrow> persist_obj (newRecord data e) = newRecord data e"
  using json_safe_new_id [of data e]
  by (simp add: newRecord_def persist_set_prop persist_spread)
     (simp add: json_safe_def persist_obj_def)

subsection \<open>Sample evaluations\<close>

lemma id_bob: "new_id bob env0 = JStr ''u1''"
  by (simp add: new_id_def bob_def get_prop_def)

lemma id_eve: "new_id eve env1 = JStr ''u1''"
  by (simp add: new_id_def eve_def get_prop_def)

lemma id_dora: "new_id dora env0 = JInfinity True"
  by (simp add: new_id_def dora_def get_prop_def)

lemma id_alice: "new_id alice e = JStr (generateId e)"
  by (simp add: new_id_def alice_def get_prop_def)



lemma safe_create_alice: "shell_safe (descr_text (MsgCreate (new_id alice env1) ''users''))"
  by (simp add: id_alice shell_safe_ids)

lemma safe_create_bob: "shell_safe (descr_text (MsgCreate (new_id bob env0) ''users''))"
  by (simp add: id_bob)

lemma safe_create_eve: "shell_safe (descr_text (MsgCreate (new_id eve env1) ''users''))"
  by (simp add: id_eve)

lemma safe_create_dora: "shell_safe (descr_text (MsgCreate (new_id dora env0) ''users''))"
  by (simp add: id_dora)



lemma safe_update_u1: "shell_safe (descr_text (MsgUpdate (JStr ''u1'') ''users''))"
  by simp

lemma dir_db0: "dir_exists db0 ''users''"
  by (simp add: dir_exists_def db0_def place0_def)

lemma dir_db1: "dir_exists db1 ''users''"
  by (simp add: db1_def dir_db0 dir_exists_createRecord [OF safe_create_bob])

lemma users_db0: "getCollection ''users'' db0 = []"
  by (simp add: getCollection_def db0_def)

lemma safe_bob: "json_safe bob"
  by (simp add: json_safe_def persist_obj_def bob_def)

lemma safe_eve: "json_safe eve"
  by (simp add: json_safe_def persist_obj_def eve_def)

lemma safe_alice: "json_safe alice"
  by (simp add: json_safe_def persist_obj_def alice_def)

lemma users_db1: "getCollection ''users'' db1 = [newRecord bob env0]"
  by (simp add: db1_def createRecord_collection [OF dir_db0 safe_create_bob] users_db0
        json_safe_newRecord safe_bob)



lemma dora_stored:
  "get_prop (persist_obj (newRecord dora env0)) ''id'' = Some JNull
   \<and> get_prop (newRecord dora env0) ''id'' = Some (JInfinity True)"
  by (simp add: get_persist_obj get_newRecord id_dora)


subsection \<open>Evaluating on the samples\<close>

lemmas store_defs =
  createRecord_def updateRecord_def deleteRecord_def saveCollection_def updateMetadata_def
  commitChanges_def commit_catch_def git_add_def git_commit_def git_reset_def git_rev_parse_def
  same_tree_def head_tree_def head_known_def worktree_def empty_tree_def getCollection_def
  revertToCommit_def getCurrentCommitHash_def dir_exists_def seen_def in_data_def Let_def

lemmas sample_defs = db0_def env0_def env1_def meta0_def place0_def


section \<open>Snapshot capture\<close>

lemma objects_commit_catch [simp]: "objects (commit_catch m d) = objects d"
  by (simp add: commit_catch_def)

lemma HEAD_commit_catch [simp]: "HEAD (commit_catch m d) = HEAD d"
  by (simp add: commit_catch_def)

lemma meta_commit_catch [simp]: "meta (commit_catch m d) = meta d"
  by (simp add: commit_catch_def)

lemma objects_updateMetadata [simp]: "objects (updateMetadata coll n e d) = objects d"
  by (simp add: updateMetadata_def Let_def split: option.splits)

lemma HEAD_updateMetadata [simp]: "HEAD (updateMetadata coll n e d) = HEAD d"
  by (simp add: updateMetadata_def Let_def split: option.splits)


text \<open>When git fails on its own, \<^verbatim>\<open>commitChanges\<close> returns all the same and no commit is
  made.\<close>

lemma commitChanges_fault:
  "add_fault e \<noteq> None \<or> shell_safe (descr_text msg) \<and> commit_fault e \<noteq> None \<Longrightarrow>
   objects (commitChanges msg e d) = objects d \<and> HEAD (commitChanges msg e d) = HEAD d"
  by (auto simp: commitChanges_def git_add_def Let_def split: option.splits)

lemma db0_head: "head_known db0 \<and> HEAD db0 = 0 \<and> length (objects db0) = 1"
  by (simp add: db0_def head_known_def)

lemma db1_git:
  "HEAD db1 = 1 \<and> length (objects db1) = 2 \<and> stderr db1 = []
   \<and> index db1 = worktree db1 \<and> snapshot (objects db1 ! 1) = worktree db1
   \<and> parent (objects db1 ! 1) = Some 0"
  using safe_create_bob by (simp add: db1_def store_defs sample_defs)

text \<open>
  C3.  The claim asks that a create whose snapshot capture fails, for another reason than an
  unchanged tree, fail in its turn.  Here \<^verbatim>\<open>git commit\<close> finds the index locked while Alice's
  record is created in a new directory: the store returns the record and keeps it in the
  collection file, no commit is made, \<^verbatim>\<open>HEAD\<close> stays, the working tree differs from the
  tree of \<^verbatim>\<open>HEAD\<close>, and the failure is only written to the console.
\<close>

theorem create_returns_although_capture_failed:
  "fst (createRecord ''users'' alice env_locked db0) = Inr (newRecord alice env_locked)
   \<and> getCollection ''users'' (snd (createRecord ''users'' alice env_locked db0))
       = [newRecord alice env_locked]
   \<and> objects (snd (createRecord ''users'' alice env_locked db0)) = objects db0
   \<and> HEAD (snd (createRecord ''users'' alice env_locked db0)) = HEAD db0
   \<and> \<not> same_tree (worktree (snd (createRecord ''users'' alice env_locked db0)))
             (head_tree (snd (createRecord ''users'' alice env_locked db0)))
   \<and> stderr (snd (createRecord ''users'' alice env_locked db0))
       = [ErrCommitting ''fatal: Unable to create .git/index.lock: File exists'']"
proof -
  have "new_id alice env_locked = JStr (generateId env0)"
    by (simp add: new_id_def alice_def get_prop_def generateId_def env_locked_def)
  then have safe: "shell_safe (descr_text (MsgCreate (new_id alice env_locked) ''users''))"
    by (simp add: shell_safe_ids)
  have kept: "persist_obj (newRecord alice env_locked) = newRecord alice env_locked"
    by (rule json_safe_newRecord [OF safe_alice])
  from safe kept show ?thesis
    by (simp add: store_defs sample_defs env_locked_def)
qed

section \<open>The Transaction Coordinator\<close>

lemma update_new_key: "map_of al k = None \<Longrightarrow> AList.update k v al = al @ [(k, v)]"
  by (induction al) (auto split: if_splits)

lemma getCurrentCommitHash_db:
  "objects (snd (getCurrentCommitHash e d)) = objects d
   \<and> HEAD (snd (getCurrentCommitHash e d)) = HEAD d
   \<and> files (snd (getCurrentCommitHash e d)) = files d
   \<and> meta (snd (getCurrentCommitHash e d)) = meta d
   \<and> index (snd (getCurrentCommitHash e d)) = index d
   \<and> place (snd (getCurrentCommitHash e d)) = place d
   \<and> data_dir (snd (getCurrentCommitHash e d)) = data_dir d"
  by (simp add: getCurrentCommitHash_def split: option.splits)

lemma getCurrentCommitHash_Inr:
  "getCurrentCommitHash e d = (Inr h, d') \<Longrightarrow>
   d' = d \<and> h = HEAD d \<and> head_known d \<and> revparse_fault e = None"
  by (auto simp: getCurrentCommitHash_def git_rev_parse_def split: option.splits if_splits)

lemma getCurrentCommitHash_ok:
  "revparse_fault e = None \<Longrightarrow> head_known d \<Longrightarrow> getCurrentCommitHash e d = (Inr (HEAD d), d)"
  by (simp add: getCurrentCommitHash_def git_rev_parse_def)

subsection \<open>begin\<close>

text \<open>
  C8.  \<^verbatim>\<open>beginTransaction\<close> works on the id supplied, when that is a non-empty string, and
  on a generated one otherwise.  If that id is in the active map, the call fails and the
  state is what it was.  If not, a call that returns has registered, last in the map, an
  active transaction with an empty log whose checkpoint is the commit \<^verbatim>\<open>HEAD\<close> points to,
  and has left the directory untouched; and the call does return when \<^verbatim>\<open>git rev-parse\<close>
  works.  In every case the commits, \<^verbatim>\<open>HEAD\<close>, the log and the files are what they were.
\<close>

theorem begin_takes_head_as_checkpoint:
  "(map_of (active s) (begin_id transactionId e) \<noteq> None \<longrightarrow>
      beginTransaction transactionId e s = (Inl (TxAlreadyActive (begin_id transactionId e)), s))
   \<and> (map_of (active s) (begin_id transactionId e) = None \<longrightarrow>
        (\<forall>t. fst (beginTransaction transactionId e s) = Inr t \<longrightarrow>
           checkpointHash t = HEAD (db s) \<and> head_known (db s)
           \<and> tx_id t = begin_id transactionId e \<and> status t = Active \<and> operations t = []
           \<and> active (snd (beginTransaction transactionId e s))
               = active s @ [(begin_id transactionId e, t)]
           \<and> db (snd (beginTransaction transactionId e s)) = db s)
        \<and> (revparse_fault e = None \<and> head_known (db s) \<longrightarrow>
             returned (fst (beginTransaction transactionId e s))))
   \<and> objects (db (snd (beginTransaction transactionId e s))) = objects (db s)
   \<and> HEAD (db (snd (beginTransaction transactionId e s))) = HEAD (db s)
   \<and> git_log (db (snd (beginTransaction transactionId e s))) = git_log (db s)
   \<and> files (db (snd (beginTransaction transactionId e s))) = files (db s)
   \<and> (\<forall>x. x \<noteq> [] \<longrightarrow> begin_id (Some x) e = x)"
proof -
  let ?i = "begin_id transactionId e"
  let ?b = "beginTransaction transactionId e s"
  have dup: "map_of (active s) ?i \<noteq> None \<longrightarrow> ?b = (Inl (TxAlreadyActive ?i), s)"
    by (simp add: beginTransaction_def)
  have frame: "objects (db (snd ?b)) = objects (db s) \<and> HEAD (db (snd ?b)) = HEAD (db s)
               \<and> files (db (snd ?b)) = files (db s)"
    using getCurrentCommitHash_db [of e "db s"]
    by (cases "getCurrentCommitHash e (db s)")
       (auto simp: beginTransaction_def Let_def split: sum.splits)
  then have log: "git_log (db (snd ?b)) = git_log (db s)"
    by (simp add: git_log_def)
  have new: "map_of (active s) ?i = None \<longrightarrow>
        (\<forall>t. fst ?b = Inr t \<longrightarrow>
           checkpointHash t = HEAD (db s) \<and> head_known (db s)
           \<and> tx_id t = ?i \<and> status t = Active \<and> operations t = []
           \<and> active (snd ?b) = active s @ [(?i, t)]
           \<and> db (snd ?b) = db s)"
  proof (intro impI allI)
    fix t
    assume free: "map_of (active s) ?i = None" and ok: "fst ?b = Inr t"
    obtain r d' where g: "getCurrentCommitHash e (db s) = (r, d')"
      by (cases "getCurrentCommitHash e (db s)")
    with free ok obtain h where r: "r = Inr h"
      by (cases r) (auto simp: beginTransaction_def Let_def)
    from getCurrentCommitHash_Inr [OF g [unfolded r]]
    have d': "d' = db s" and h: "h = HEAD (db s)" and known: "head_known (db s)"
      by simp_all
    from free ok g r d' h known show
      "checkpointHash t = HEAD (db s) \<and> head_known (db s)
           \<and> tx_id t = ?i \<and> status t = Active \<and> operations t = []
           \<and> active (snd ?b) = active s @ [(?i, t)]
           \<and> db (snd ?b) = db s"
      by (auto simp: beginTransaction_def Let_def update_new_key)
  qed
  have ret: "map_of (active s) ?i = None \<longrightarrow> revparse_fault e = None \<and> head_known (db s)
               \<longrightarrow> returned (fst ?b)"
    by (simp add: beginTransaction_def Let_def getCurrentCommitHash_ok returned_def)
  have "\<forall>x. x \<noteq> [] \<longrightarrow> begin_id (Some x) e = x"
    by (simp add: begin_id_def)
  with dup frame log new ret show ?thesis by simp
qed

lemma begin_t1_db1:
  "beginTransaction (Some ''t1'') env0 \<lparr>db = db1, active = []\<rparr>
     = (Inr tx1, \<lparr>db = db1, active = [(''t1'', tx1)]\<rparr>)"
  by (simp add: beginTransaction_def begin_id_def getCurrentCommitHash_def git_rev_parse_def
        head_known_def db1_git tx1_def env0_def Let_def)

lemma sys1_eval: "sys1 = \<lparr>db = db1, active = [(''t1'', tx1)]\<rparr>"
  by (simp add: sys1_def begin_t1_db1)

theorem begin_takes_head_as_checkpoint_witness:
  "map_of (active sys1) (begin_id (Some ''t1'') env1) \<noteq> None
   \<and> beginTransaction (Some ''t1'') env1 sys1 = (Inl (TxAlreadyActive ''t1''), sys1)
   \<and> map_of (active \<lparr>db = db1, active = []\<rparr>) (begin_id (Some ''t1'') env0) = None
   \<and> fst (beginTransaction (Some ''t1'') env0 \<lparr>db = db1, active = []\<rparr>) = Inr tx1
   \<and> checkpointHash tx1 = HEAD db1
   \<and> active (snd (beginTransaction (Some ''t1'') env0 \<lparr>db = db1, active = []\<rparr>)) = [(''t1'', tx1)]
   \<and> revparse_fault env0 = None \<and> head_known db1
   \<and> returned (fst (beginTransaction (Some ''t1'') env0 \<lparr>db = db1, active = []\<rparr>))
   \<and> ''t1'' \<noteq> [] \<and> begin_id (Some ''t1'') env0 = ''t1''"
proof -
  let ?s = "\<lparr>db = db1, active = []\<rparr>"
  have i: "begin_id (Some ''t1'') env1 = ''t1''" "begin_id (Some ''t1'') env0 = ''t1''"
    by (simp_all add: begin_id_def)
  have dup: "map_of (active sys1) (begin_id (Some ''t1'') env1) \<noteq> None"
    by (simp add: sys1_eval i)
  have free: "map_of (active ?s) (begin_id (Some ''t1'') env0) = None"
    by simp
  have ok: "fst (beginTransaction (Some ''t1'') env0 ?s) = Inr tx1"
    by (simp add: begin_t1_db1)
  have g: "revparse_fault env0 = None \<and> head_known (db ?s)"
    by (simp add: env0_def head_known_def db1_git)
  note T1 = begin_takes_head_as_checkpoint [of sys1 "Some ''t1''" env1]
  note T0 = begin_takes_head_as_checkpoint [of ?s "Some ''t1''" env0]
  from T1 [THEN conjunct1, THEN mp, OF dup]
  have a: "beginTransaction (Some ''t1'') env1 sys1 = (Inl (TxAlreadyActive ''t1''), sys1)"
    by (simp only: i)
  from T0 [THEN conjunct2, THEN conjunct1, THEN mp, OF free, THEN conjunct1, THEN spec,
           THEN mp, OF ok]
  have b: "checkpointHash tx1 = HEAD db1
           \<and> active (snd (beginTransaction (Some ''t1'') env0 ?s)) = [(''t1'', tx1)]"
    by (simp add: i)
  from T0 [THEN conjunct2, THEN conjunct1, THEN mp, OF free, THEN conjunct2, THEN mp, OF g]
  have c: "returned (fst (beginTransaction (Some ''t1'') env0 ?s))" .
  from dup a free ok b c g i show ?thesis by simp
qed

subsection \<open>execute\<close>

lemma dispatch_unsupported:
  "operation \<noteq> ''create'' \<Longrightarrow> operation \<noteq> ''update'' \<Longrightarrow> operation \<noteq> ''delete'' \<Longrightarrow>
   dispatch operation a e d = (Inl (UnsupportedOperation operation), d)"
  by (simp add: dispatch_def)

text \<open>
  C4.  When the id denotes a transaction of the active map whose status is active,
  \<^verbatim>\<open>executeInTransaction\<close> leaves that transaction with exactly one more entry at the end of
  its log, naming the operation and its arguments; the call returns what the store call
  returned or throws what it threw; on a return the entry is completed and holds the result,
  on a throw it is failed and holds the error.  An operation that is not create, update or
  delete throws the unsupported-operation error, and is logged as failed like any other.
\<close>

theorem execute_logs_every_outcome:
  "map_of (active s) transactionId = Some t \<and> status t = Active \<longrightarrow>
     (\<exists>entry.
        map_of (active (snd (executeInTransaction transactionId operation a e s))) transactionId
          = Some (t\<lparr>operations := operations t @ [entry]\<rparr>)
        \<and> op_operation entry = operation \<and> op_args entry = a
        \<and> fst (executeInTransaction transactionId operation a e s)
            = fst (dispatch operation a e (db s))
        \<and> (\<forall>r. fst (executeInTransaction transactionId operation a e s) = Inr r \<longrightarrow>
              op_status entry = Completed \<and> op_result entry = Some r \<and> op_error entry = None)
        \<and> (\<forall>err. fst (executeInTransaction transactionId operation a e s) = Inl err \<longrightarrow>
              op_status entry = Failed \<and> op_error entry = Some err \<and> op_result entry = None)
        \<and> (operation \<noteq> ''create'' \<and> operation \<noteq> ''update'' \<and> operation \<noteq> ''delete'' \<longrightarrow>
              fst (executeInTransaction transactionId operation a e s)
                = Inl (UnsupportedOperation operation)))"
proof (intro impI, elim conjE)
  assume t: "map_of (active s) transactionId = Some t" and act: "status t = Active"
  obtain r d' where d: "dispatch operation a e (db s) = (r, d')"
    by (cases "dispatch operation a e (db s)")
  have un: "operation \<noteq> ''create'' \<and> operation \<noteq> ''update'' \<and> operation \<noteq> ''delete'' \<longrightarrow>
              r = Inl (UnsupportedOperation operation)"
    using d by (auto simp: dispatch_unsupported)
  show "\<exists>entry.
        map_of (active (snd (executeInTransaction transactionId operation a e s))) transactionId
          = Some (t\<lparr>operations := operations t @ [entry]\<rparr>)
        \<and> op_operation entry = operation \<and> op_args entry = a
        \<and> fst (executeInTransaction transactionId operation a e s)
            = fst (dispatch operation a e (db s))
        \<and> (\<forall>r. fst (executeInTransaction transactionId operation a e s) = Inr r \<longrightarrow>
              op_status entry = Completed \<and> op_result entry = Some r \<and> op_error entry = None)
        \<and> (\<forall>err. fst (executeInTransaction transactionId operation a e s) = Inl err \<longrightarrow>
              op_status entry = Failed \<and> op_error entry = Some err \<and> op_result entry = None)
        \<and> (operation \<noteq> ''create'' \<and> operation \<noteq> ''update'' \<and> operation \<noteq> ''delete'' \<longrightarrow>
              fst (executeInTransaction transactionId operation a e s)
                = Inl (UnsupportedOperation operation))"
  proof (cases r)
    case (Inl err)
    let ?entry = "\<lparr>op_operation = operation, op_args = a, op_timestamp = op_now e,
                   op_status = Failed, op_result = None, op_error = Some err\<rparr>"
    from t act d Inl un show ?thesis
      by (intro exI [of _ ?entry]) (simp add: executeInTransaction_def update_conv')
  next
    case (Inr rec)
    let ?entry = "\<lparr>op_operation = operation, op_args = a, op_timestamp = op_now e,
                   op_status = Completed, op_result = Some rec, op_error = None\<rparr>"
    from t act d Inr un show ?thesis
      by (intro exI [of _ ?entry]) (simp add: executeInTransaction_def update_conv')
  qed
qed

theorem execute_logs_every_outcome_witness:
  "map_of (active sys1) ''t1'' = Some tx1 \<and> status tx1 = Active
   \<and> fst (executeInTransaction ''t1'' ''upsert'' args_alice env1 sys1)
       = Inl (UnsupportedOperation ''upsert'')
   \<and> (\<exists>entry.
         map_of (active (snd (executeInTransaction ''t1'' ''upsert'' args_alice env1 sys1))) ''t1''
           = Some (tx1\<lparr>operations := [entry]\<rparr>)
         \<and> op_status entry = Failed \<and> op_error entry = Some (UnsupportedOperation ''upsert''))
   \<and> fst (executeInTransaction ''t1'' ''create'' args_alice env1 sys1)
       = Inr (newRecord alice env1)
   \<and> (\<exists>entry.
         map_of (active (snd (executeInTransaction ''t1'' ''create'' args_alice env1 sys1))) ''t1''
           = Some (tx1\<lparr>operations := [entry]\<rparr>)
         \<and> op_status entry = Completed \<and> op_result entry = Some (newRecord alice env1))"
proof -
  have t: "map_of (active sys1) ''t1'' = Some tx1 \<and> status tx1 = Active"
    by (simp add: sys1_eval) (simp add: tx1_def)
  have ops: "operations tx1 = []"
    by (simp add: tx1_def)
  let ?u = "executeInTransaction ''t1'' ''upsert'' args_alice env1 sys1"
  let ?c = "executeInTransaction ''t1'' ''create'' args_alice env1 sys1"
  from execute_logs_every_outcome [of sys1 "''t1''" tx1 "''upsert''" args_alice env1, THEN mp, OF t]
  obtain entry where
    m: "map_of (active (snd ?u)) ''t1'' = Some (tx1\<lparr>operations := operations tx1 @ [entry]\<rparr>)"
    and f: "\<forall>err. fst ?u = Inl err \<longrightarrow>
              op_status entry = Failed \<and> op_error entry = Some err \<and> op_result entry = None"
    and u: "''upsert'' \<noteq> ''create'' \<and> ''upsert'' \<noteq> ''update'' \<and> ''upsert'' \<noteq> ''delete'' \<longrightarrow>
              fst ?u = Inl (UnsupportedOperation ''upsert'')"
    by (elim exE conjE) (rule that; assumption)
  from u have r: "fst ?u = Inl (UnsupportedOperation ''upsert'')"
    by simp
  from f [rule_format, OF r] m ops
  have a: "\<exists>entry. map_of (active (snd ?u)) ''t1'' = Some (tx1\<lparr>operations := [entry]\<rparr>)
         \<and> op_status entry = Failed \<and> op_error entry = Some (UnsupportedOperation ''upsert'')"
    by (intro exI [of _ entry]) simp
  from execute_logs_every_outcome [of sys1 "''t1''" tx1 "''create''" args_alice env1, THEN mp, OF t]
  obtain entry' where
    m': "map_of (active (snd ?c)) ''t1'' = Some (tx1\<lparr>operations := operations tx1 @ [entry']\<rparr>)"
    and d: "fst ?c = fst (dispatch ''create'' args_alice env1 (db sys1))"
    and g: "\<forall>r. fst ?c = Inr r \<longrightarrow>
              op_status entry' = Completed \<and> op_result entry' = Some r \<and> op_error entry' = None"
    by (elim exE conjE) (rule that; assumption)
  from d have r': "fst ?c = Inr (newRecord alice env1)"
    by (simp add: dispatch_def args_alice_def createRecord_result sys1_eval dir_db1)
  from g [rule_format, OF r'] m' ops
  have b: "\<exists>entry. map_of (active (snd ?c)) ''t1'' = Some (tx1\<lparr>operations := [entry]\<rparr>)
         \<and> op_status entry = Completed \<and> op_result entry = Some (newRecord alice env1)"
    by (intro exI [of _ entry']) simp
  from t r a r' b show ?thesis by (intro conjI) simp_all
qed

subsection \<open>rollback\<close>

lemma objects_git_reset: "git_reset h d = Some d' \<Longrightarrow> objects d' = objects d"
  by (auto simp: git_reset_def Let_def split: if_splits)

lemma place_git_reset: "git_reset h d = Some d' \<Longrightarrow> place d' = place d"
  by (auto simp: git_reset_def Let_def split: if_splits)

lemma objects_revertToCommit [simp]: "objects (snd (revertToCommit h e d)) = objects d"
  by (auto simp: revertToCommit_def split: option.splits dest: objects_git_reset)

lemma place_revertToCommit [simp]: "place (snd (revertToCommit h e d)) = place d"
  by (auto simp: revertToCommit_def split: option.splits dest: place_git_reset)

lemma revertToCommit_ok:
  "reset_fault e = None \<Longrightarrow> h < length (objects d) \<Longrightarrow>
   \<exists>d'. revertToCommit h e d = (Inr True, d') \<and> git_reset h d = Some d'"
  by (simp add: revertToCommit_def git_reset_def Let_def)

lemma revertToCommit_Inr:
  "revertToCommit h e d = (Inr ok, d') \<Longrightarrow>
   git_reset h d = Some d' \<and> h < length (objects d) \<and> reset_fault e = None"
  by (auto simp: revertToCommit_def git_reset_def Let_def split: option.splits if_splits)

lemma revertToCommit_Inl:
  "revertToCommit h e d = (Inl err, d') \<Longrightarrow> \<exists>l. d' = d\<lparr>stderr := l\<rparr>"
  by (auto simp: revertToCommit_def split: option.splits)

lemma rollback_active:
  "active (snd (rollbackTransaction i e s)) =
     (if returned (fst (rollbackTransaction i e s)) then AList.delete i (active s) else active s)"
  by (simp add: rollbackTransaction_def returned_def split: option.splits prod.splits sum.splits)

lemma rollback_objects [simp]: "objects (db (snd (rollbackTransaction i e s))) = objects (db s)"
proof (cases "map_of (active s) i")
  case None
  then show ?thesis by (simp add: rollbackTransaction_def)
next
  case (Some t)
  obtain r d' where rv: "revertToCommit (checkpointHash t) e (db s) = (r, d')"
    by (cases "revertToCommit (checkpointHash t) e (db s)")
  then have "objects d' = objects (db s)"
    using objects_revertToCommit [of "checkpointHash t" e "db s"] by simp
  with Some rv show ?thesis
    by (cases r) (simp_all add: rollbackTransaction_def)
qed

lemma rollback_place [simp]: "place (db (snd (rollbackTransaction i e s))) = place (db s)"
proof (cases "map_of (active s) i")
  case None
  then show ?thesis by (simp add: rollbackTransaction_def)
next
  case (Some t)
  obtain r d' where rv: "revertToCommit (checkpointHash t) e (db s) = (r, d')"
    by (cases "revertToCommit (checkpointHash t) e (db s)")
  then have "place d' = place (db s)"
    using place_revertToCommit [of "checkpointHash t" e "db s"] by simp
  with Some rv show ?thesis
    by (cases r) (simp_all add: rollbackTransaction_def)
qed

lemma rollback_returns:
  assumes "map_of (active s) i = Some t" "status t = Active"
    "checkpointHash t < length (objects (db s))" "reset_fault e = None"
  shows "fst (rollbackTransaction i e s) = Inr (t\<lparr>status := RolledBack, endTime := Some (iso_now e)\<rparr>)"
proof -
  from revertToCommit_ok [OF assms(4) assms(3)]
  obtain d' where "revertToCommit (checkpointHash t) e (db s) = (Inr True, d')" by blast
  with assms(1,2) show ?thesis by (simp add: rollbackTransaction_def)
qed

lemma rollback_fault:
  assumes "map_of (active s) i = Some t" "status t = Active" "reset_fault e = Some m"
  shows "fst (rollbackTransaction i e s) = Inl (ExecError m)"
  using assms by (simp add: rollbackTransaction_def revertToCommit_def)

lemma rollback_other:
  "j \<noteq> i \<Longrightarrow> map_of (active (snd (rollbackTransaction j e s))) i = map_of (active s) i"
  by (simp add: rollback_active)

text \<open>A rollback that returned has reset the directory to the checkpoint of the transaction;
  one that threw has written to the console and nothing else.\<close>

lemma rollback_Inr:
  assumes "rollbackTransaction i e s = (Inr t', s')"
  shows "\<exists>t d'. map_of (active s) i = Some t \<and> git_reset (checkpointHash t) (db s) = Some d'
           \<and> db s' = d' \<and> active s' = AList.delete i (active s)
           \<and> t' = t\<lparr>status := RolledBack, endTime := Some (iso_now e)\<rparr>"
proof -
  from assms obtain t where t: "map_of (active s) i = Some t"
    by (cases "map_of (active s) i") (auto simp: rollbackTransaction_def)
  obtain r d' where rv: "revertToCommit (checkpointHash t) e (db s) = (r, d')"
    by (cases "revertToCommit (checkpointHash t) e (db s)")
  with assms t obtain ok where r: "r = Inr ok"
    by (cases r) (auto simp: rollbackTransaction_def split: if_splits)
  from revertToCommit_Inr [OF rv [unfolded r]] assms t rv r show ?thesis
    by (auto simp: rollbackTransaction_def split: if_splits)
qed

lemma rollback_Inl:
  assumes "rollbackTransaction i e s = (Inl err, s')"
  shows "\<exists>l. db s' = (db s)\<lparr>stderr := l\<rparr>"
proof (cases "map_of (active s) i")
  case None
  with assms have "s' = s" by (simp add: rollbackTransaction_def)
  then have "db s' = (db s)\<lparr>stderr := stderr (db s)\<rparr>" by simp
  then show ?thesis ..
next
  case (Some t)
  show ?thesis
  proof (cases "status t = Active")
    case False
    with Some assms have "s' = s" by (simp add: rollbackTransaction_def)
    then have "db s' = (db s)\<lparr>stderr := stderr (db s)\<rparr>" by simp
    then show ?thesis ..
  next
    case True
    obtain r d' where rv: "revertToCommit (checkpointHash t) e (db s) = (r, d')"
      by (cases "revertToCommit (checkpointHash t) e (db s)")
    with assms Some True obtain err' where r: "r = Inl err'"
      by (cases r) (auto simp: rollbackTransaction_def)
    from revertToCommit_Inl [OF rv [unfolded r]] obtain l where "d' = (db s)\<lparr>stderr := l\<rparr>"
      by blast
    with assms Some True rv r
    have "db s' = (db s)\<lparr>stderr := l @ [ErrRollingBack i err']\<rparr>"
      by (auto simp: rollbackTransaction_def)
    then show ?thesis ..
  qed
qed

subsection \<open>Every file stays tracked\<close>

lemma seen_place: "place d' = place d \<Longrightarrow> seen d' = seen d"
  by (rule ext) (simp add: seen_def)

lemma tracked_stderr [simp]: "tracked (d\<lparr>stderr := l\<rparr>) = tracked d"
  by (simp add: tracked_def seen_place [of "d\<lparr>stderr := l\<rparr>" d])

text \<open>With every file tracked, \<^verbatim>\<open>git reset --hard\<close> leaves exactly the tree of the commit.\<close>

lemma git_reset_tracked:
  assumes "tracked d" "git_reset h d = Some d'"
  shows "files d' = t_files (snapshot (objects d ! h))
         \<and> meta d' = t_meta (snapshot (objects d ! h))
         \<and> index d' = snapshot (objects d ! h)
         \<and> HEAD d' = h \<and> objects d' = objects d \<and> place d' = place d
         \<and> h < length (objects d) \<and> tracked d'"
proof -
  let ?tgt = "snapshot (objects d ! h)"
  from assms(2) have h: "h < length (objects d)"
    by (simp add: git_reset_def split: if_splits)
  from assms(1) have "\<forall>x \<in> set (files d). fst x \<in> set (map fst (t_files (index d)))"
    by (simp add: tracked_def list_all_iff)
  then have none: "filter (\<lambda>(p, c). p \<notin> set (map fst (t_files ?tgt))
                                    \<and> p \<notin> set (map fst (t_files (index d)))) (files d) = []"
    unfolding filter_empty_conv by (intro ballI) (simp add: case_prod_beta)
  from assms(1) have mt: "(case t_meta ?tgt of Some m \<Rightarrow> Some m
          | None \<Rightarrow> (case t_meta (index d) of Some m \<Rightarrow> None | None \<Rightarrow> meta d)) = t_meta ?tgt"
    by (auto simp: tracked_def split: option.splits)
  from none mt assms(2) have eqs: "files d' = t_files ?tgt" "meta d' = t_meta ?tgt"
    "index d' = ?tgt" "HEAD d' = h" "objects d' = objects d" "place d' = place d"
    by (auto simp: git_reset_def Let_def split: if_splits)
  from assms(1) have commits: "list_all (\<lambda>c. list_all (seen d) (map fst (t_files (snapshot c))))
                                 (objects d)"
    by (simp add: tracked_def)
  with h have "list_all (seen d) (map fst (t_files ?tgt))"
    by (simp add: list_all_length)
  with commits eqs have "tracked d'"
    by (cases "t_meta ?tgt") (simp_all add: tracked_def seen_place [of d' d] list_all_iff)
  with eqs h show ?thesis by simp
qed

lemma tracked_revertToCommit: "tracked d \<Longrightarrow> tracked (snd (revertToCommit h e d))"
proof (cases "revertToCommit h e d")
  case (Pair r d')
  assume t: "tracked d"
  show ?thesis
  proof (cases r)
    case (Inl err)
    from revertToCommit_Inl [OF Pair [unfolded Inl]] Pair t show ?thesis
      by auto
  next
    case (Inr ok)
    from revertToCommit_Inr [OF Pair [unfolded Inr]] have "git_reset h d = Some d'" by simp
    from git_reset_tracked [OF t this] Pair show ?thesis
      by simp
  qed
qed

lemma tracked_rollback:
  "tracked (db s) \<Longrightarrow> tracked (db (snd (rollbackTransaction transactionId e s)))"
proof (cases "map_of (active s) transactionId")
  case None
  then show "tracked (db s) \<Longrightarrow> ?thesis" by (simp add: rollbackTransaction_def)
next
  case (Some t)
  assume tr: "tracked (db s)"
  from tracked_revertToCommit [OF tr, of "checkpointHash t" e] Some tr show ?thesis
    by (cases "revertToCommit (checkpointHash t) e (db s)")
       (auto simp: rollbackTransaction_def split: sum.splits)
qed

subsection \<open>cleanup and abort-all\<close>

lemma rollback_each_fst:
  "fst (rollback_each ok bad envs (i # ids) s) =
     (case fst (rollbackTransaction i (envs i) s) of
        Inr t \<Rightarrow> \<lparr>o_id = i, o_status = ok, o_result = Some t, o_error = None\<rparr>
      | Inl err \<Rightarrow> \<lparr>o_id = i, o_status = bad, o_result = None, o_error = Some err\<rparr>)
     # fst (rollback_each ok bad envs ids (snd (rollbackTransaction i (envs i) s)))"
  by (simp split: prod.splits sum.splits)

lemma rollback_each_snd:
  "snd (rollback_each ok bad envs (i # ids) s) =
     snd (rollback_each ok bad envs ids (snd (rollbackTransaction i (envs i) s)))"
  by (simp split: prod.splits sum.splits)

lemma rollback_each_ids: "map o_id (fst (rollback_each ok bad envs ids s)) = ids"
proof (induction ids arbitrary: s)
  case Nil
  then show ?case by simp
next
  case (Cons i ids)
  then show ?case
    unfolding rollback_each_fst by (simp split: sum.splits)
qed

lemma rollback_each_outcomes:
  "list_all (\<lambda>oc. succeeded oc \<and> o_status oc = ok \<or> failed oc \<and> o_status oc = bad)
     (fst (rollback_each ok bad envs ids s))"
proof (induction ids arbitrary: s)
  case Nil
  then show ?case by simp
next
  case (Cons i ids)
  then show ?case
    unfolding rollback_each_fst by (simp add: succeeded_def failed_def split: sum.splits)
qed

lemma rollback_each_active:
  "active (snd (rollback_each ok bad envs ids s)) =
     filter (\<lambda>(i, t). i \<notin> set (map o_id (filter succeeded (fst (rollback_each ok bad envs ids s)))))
       (active s)"
proof (induction ids arbitrary: s)
  case Nil
  then show ?case by simp
next
  case (Cons i ids)
  obtain r s1 where one: "rollbackTransaction i (envs i) s = (r, s1)"
    by (cases "rollbackTransaction i (envs i) s")
  obtain rs s2 where rest: "rollback_each ok bad envs ids s1 = (rs, s2)"
    by (cases "rollback_each ok bad envs ids s1")
  from Cons.IH [of s1] rest
  have ih: "active s2 = filter (\<lambda>(i, t). i \<notin> set (map o_id (filter succeeded rs))) (active s1)"
    by simp
  from rollback_active [of i "envs i" s] one
  have a1: "active s1 = (if returned r then AList.delete i (active s) else active s)"
    by simp
  show ?case
  proof (cases r)
    case (Inl err)
    with one rest ih a1 show ?thesis
      by (simp add: succeeded_def returned_def)
  next
    case (Inr t)
    have "filter (\<lambda>(k, t). k \<notin> set (map o_id (filter succeeded rs))) (AList.delete i (active s))
            = filter (\<lambda>(k, t). k \<noteq> i \<and> k \<notin> set (map o_id (filter succeeded rs))) (active s)"
      by (simp add: AList.delete_eq) (rule filter_cong, auto)
    with Inr one rest ih a1 show ?thesis
      by (simp add: succeeded_def returned_def)
  qed
qed

lemma rollback_each_independent:
  assumes "distinct ids" "i \<in> set ids" "map_of (active s) i = Some t" "status t = Active"
    "checkpointHash t < length (objects (db s))" "reset_fault (envs i) = None"
  shows "\<exists>oc \<in> set (fst (rollback_each ok bad envs ids s)). o_id oc = i \<and> succeeded oc"
  using assms
proof (induction ids arbitrary: s)
  case Nil
  then show ?case by simp
next
  case (Cons j ids)
  obtain r s1 where one: "rollbackTransaction j (envs j) s = (r, s1)"
    by (cases "rollbackTransaction j (envs j) s")
  obtain rs s2 where rest: "rollback_each ok bad envs ids s1 = (rs, s2)"
    by (cases "rollback_each ok bad envs ids s1")
  show ?case
  proof (cases "j = i")
    case True
    from rollback_returns [OF Cons.prems(3-6)] one True
    have "r = Inr (t\<lparr>status := RolledBack, endTime := Some (iso_now (envs i))\<rparr>)"
      by simp
    with one rest True show ?thesis
      by (simp add: succeeded_def)
  next
    case False
    from rollback_other [OF False, of "envs j" s] one Cons.prems(3)
    have m: "map_of (active s1) i = Some t" by simp
    from rollback_objects [of j "envs j" s] one Cons.prems(5)
    have c: "checkpointHash t < length (objects (db s1))" by simp
    from Cons.prems False have "distinct ids" "i \<in> set ids" by auto
    from Cons.IH [OF this m Cons.prems(4) c Cons.prems(6)] rest
    have "\<exists>oc \<in> set rs. o_id oc = i \<and> succeeded oc" by simp
    with one rest show ?thesis
      by (cases r) auto
  qed
qed

lemma stale_iff:
  "i \<in> set (staleTransactions fl now date_ms maxAgeMinutes s) \<longleftrightarrow>
     (\<exists>t start. (i, t) \<in> set (active s) \<and> date_ms (startTime t) = Some start
         \<and> fl (real_of_int (now - start) / (1000 * 60)) > maxAgeMinutes)"
  by (auto simp: staleTransactions_def isStale_def Let_def split: option.splits) force

lemma distinct_stale:
  "distinct (map fst (active s)) \<Longrightarrow> distinct (staleTransactions fl now date_ms maxAgeMinutes s)"
  by (simp add: staleTransactions_def distinct_map_filter)

lemma gone_when_succeeded:
  assumes "\<exists>oc \<in> set (fst (rollback_each ok bad envs ids s)). o_id oc = i \<and> succeeded oc"
  shows "map_of (active (snd (rollback_each ok bad envs ids s))) i = None"
proof -
  from assms have "i \<in> set (map o_id (filter succeeded (fst (rollback_each ok bad envs ids s))))"
    by auto
  then have "i \<notin> fst ` set (active (snd (rollback_each ok bad envs ids s)))"
    unfolding rollback_each_active [of ok bad envs ids s] by auto
  then show ?thesis by (simp add: map_of_eq_None_iff)
qed

text \<open>What the attempts do to the directory.\<close>

lemma succeeded_entry [simp]:
  "succeeded \<lparr>o_id = i, o_status = x, o_result = Some t, o_error = None\<rparr>"
  "\<not> succeeded \<lparr>o_id = i, o_status = x, o_result = None, o_error = Some err\<rparr>"
  by (simp_all add: succeeded_def)

lemma rollback_each_objects:
  "objects (db (snd (rollback_each ok bad envs ids s))) = objects (db s)"
proof (induction ids arbitrary: s)
  case Nil
  then show ?case by simp
next
  case (Cons i ids)
  show ?case
    unfolding rollback_each_snd by (simp add: Cons.IH)
qed

lemma rollback_each_holds:
  "list_all (\<lambda>oc. succeeded oc \<longrightarrow>
       (\<exists>t. (o_id oc, t) \<in> set (active s)
          \<and> o_result oc = Some (t\<lparr>status := RolledBack,
                                    endTime := Some (iso_now (envs (o_id oc)))\<rparr>)))
     (fst (rollback_each ok bad envs ids s))"
proof (induction ids arbitrary: s)
  case Nil
  then show ?case by simp
next
  case (Cons i ids)
  obtain r s1 where one: "rollbackTransaction i (envs i) s = (r, s1)"
    by (cases "rollbackTransaction i (envs i) s")
  from rollback_active [of i "envs i" s] one
  have sub: "set (active s1) \<subseteq> set (active s)"
    by (auto simp: AList.delete_eq split: if_splits)
  from Cons.IH [of s1] sub
  have rest: "list_all (\<lambda>oc. succeeded oc \<longrightarrow>
       (\<exists>t. (o_id oc, t) \<in> set (active s)
          \<and> o_result oc = Some (t\<lparr>status := RolledBack,
                                    endTime := Some (iso_now (envs (o_id oc)))\<rparr>)))
     (fst (rollback_each ok bad envs ids s1))"
    unfolding list_all_iff by blast
  show ?case
  proof (cases r)
    case (Inl err)
    with one rest show ?thesis
      unfolding rollback_each_fst by simp
  next
    case (Inr t')
    from rollback_Inr [OF one [unfolded Inr]] obtain t where
      "map_of (active s) i = Some t"
      "t' = t\<lparr>status := RolledBack, endTime := Some (iso_now (envs i))\<rparr>"
      by blast
    then have "\<exists>t. (i, t) \<in> set (active s)
          \<and> t' = t\<lparr>status := RolledBack, endTime := Some (iso_now (envs i))\<rparr>"
      by (auto dest: map_of_SomeD)
    with Inr one rest show ?thesis
      unfolding rollback_each_fst by simp
  qed
qed

lemma rollback_each_untouched:
  "filter succeeded (fst (rollback_each ok bad envs ids s)) = [] \<Longrightarrow>
   files (db (snd (rollback_each ok bad envs ids s))) = files (db s)
   \<and> meta (db (snd (rollback_each ok bad envs ids s))) = meta (db s)
   \<and> HEAD (db (snd (rollback_each ok bad envs ids s))) = HEAD (db s)
   \<and> index (db (snd (rollback_each ok bad envs ids s))) = index (db s)
   \<and> data_dir (db (snd (rollback_each ok bad envs ids s))) = data_dir (db s)"
proof (induction ids arbitrary: s)
  case Nil
  then show ?case by simp
next
  case (Cons i ids)
  obtain r s1 where one: "rollbackTransaction i (envs i) s = (r, s1)"
    by (cases "rollbackTransaction i (envs i) s")
  from Cons.prems one obtain err where r: "r = Inl err"
    unfolding rollback_each_fst by (cases r) auto
  from rollback_Inl [OF one [unfolded r]] obtain l where d1: "db s1 = (db s)\<lparr>stderr := l\<rparr>"
    by blast
  from Cons.prems one r
  have "filter succeeded (fst (rollback_each ok bad envs ids s1)) = []"
    unfolding rollback_each_fst by (simp split: if_splits)
  from Cons.IH [OF this] one d1 show ?case
    unfolding rollback_each_snd by simp
qed

lemma rollback_each_reverted:
  assumes "tracked (db s)"
    and "filter succeeded (fst (rollback_each ok bad envs ids s)) \<noteq> []"
    and "o_result (last (filter succeeded (fst (rollback_each ok bad envs ids s)))) = Some t"
  shows "HEAD (db (snd (rollback_each ok bad envs ids s))) = checkpointHash t
    \<and> files (db (snd (rollback_each ok bad envs ids s)))
        = t_files (snapshot (objects (db s) ! checkpointHash t))
    \<and> meta (db (snd (rollback_each ok bad envs ids s)))
        = t_meta (snapshot (objects (db s) ! checkpointHash t))"
  using assms
proof (induction ids arbitrary: s)
  case Nil
  then show ?case by simp
next
  case (Cons i ids)
  obtain r s1 where one: "rollbackTransaction i (envs i) s = (r, s1)"
    by (cases "rollbackTransaction i (envs i) s")
  let ?rest = "fst (rollback_each ok bad envs ids s1)"
  from tracked_rollback [OF Cons.prems(1), of i "envs i"] one
  have tr1: "tracked (db s1)" by simp
  from rollback_objects [of i "envs i" s] one
  have o1: "objects (db s1) = objects (db s)" by simp
  show ?case
  proof (cases "filter succeeded ?rest = []")
    case False
    from Cons.prems(3) one False
    have "o_result (last (filter succeeded ?rest)) = Some t"
      unfolding rollback_each_fst by (simp split: if_splits)
    from Cons.IH [OF tr1 False this] one o1 show ?thesis
      unfolding rollback_each_snd by simp
  next
    case True
    from Cons.prems(2) one True obtain t' where r: "r = Inr t'"
      unfolding rollback_each_fst by (cases r) auto
    from Cons.prems(3) one True r have t': "t' = t"
      unfolding rollback_each_fst by simp
    from rollback_Inr [OF one [unfolded r]] obtain t0 where
      reset: "git_reset (checkpointHash t0) (db s) = Some (db s1)"
      and "t' = t0\<lparr>status := RolledBack, endTime := Some (iso_now (envs i))\<rparr>"
      by blast
    with t' have c: "checkpointHash t0 = checkpointHash t"
      by auto
    from git_reset_tracked [OF Cons.prems(1) reset] c
    have "HEAD (db s1) = checkpointHash t"
      "files (db s1) = t_files (snapshot (objects (db s) ! checkpointHash t))"
      "meta (db s1) = t_meta (snapshot (objects (db s) ! checkpointHash t))"
      by simp_all
    with rollback_each_untouched [OF True] one show ?thesis
      unfolding rollback_each_snd by simp
  qed
qed

text \<open>
  C9.  \<^verbatim>\<open>cleanupStaleTransactions\<close> returns one outcome for each active transaction whose
  age is above the threshold, in the order of the map, and for no other; \<^verbatim>\<open>abortAllTransactions\<close>
  returns one for each active transaction.  Both return a list, whatever the attempts did:
  every outcome is either a success or an error holding the message, and a success holds a
  transaction of the map, marked rolled back and ended at the time of its attempt.  The
  transactions that leave the active map are exactly those with a successful outcome.  An
  attempt does not depend on the others: a transaction on the list that can be rolled back
  gets a successful outcome and leaves the map, whether or not the attempts before it failed.
  And the successes are rollbacks of the directory.  No commit is made or lost.  With no
  success, files, metadata and \<^verbatim>\<open>HEAD\<close> are what they were.  Otherwise, every file being
  tracked, \<^verbatim>\<open>HEAD\<close> is the checkpoint of the last transaction rolled back, and the files and
  the metadata are those of that commit.
\<close>

theorem sweeps_attempt_each_and_collect_outcomes:
  "map o_id (fst (cleanupStaleTransactions fl maxAge now date_ms envs s))
     = staleTransactions fl now date_ms maxAge s
   \<and> (\<forall>i. i \<in> set (staleTransactions fl now date_ms maxAge s) \<longleftrightarrow>
          (\<exists>t start. (i, t) \<in> set (active s) \<and> date_ms (startTime t) = Some start
              \<and> fl (real_of_int (now - start) / (1000 * 60)) > maxAge))
   \<and> map o_id (fst (abortAllTransactions envs s)) = map fst (active s)
   \<and> list_all (\<lambda>oc. succeeded oc \<and> o_status oc = ''auto_rolled_back''
                    \<or> failed oc \<and> o_status oc = ''cleanup_error'')
        (fst (cleanupStaleTransactions fl maxAge now date_ms envs s))
   \<and> list_all (\<lambda>oc. succeeded oc \<and> o_status oc = ''rolled_back''
                    \<or> failed oc \<and> o_status oc = ''error'')
        (fst (abortAllTransactions envs s))
   \<and> active (snd (cleanupStaleTransactions fl maxAge now date_ms envs s))
       = filter (\<lambda>(i, t). i \<notin> set (map o_id (filter succeeded
                   (fst (cleanupStaleTransactions fl maxAge now date_ms envs s))))) (active s)
   \<and> active (snd (abortAllTransactions envs s))
       = filter (\<lambda>(i, t). i \<notin> set (map o_id (filter succeeded
                   (fst (abortAllTransactions envs s))))) (active s)
   \<and> (distinct (map fst (active s)) \<longrightarrow>
        (\<forall>i. i \<in> set (staleTransactions fl now date_ms maxAge s) \<and> can_roll_back envs s i \<longrightarrow>
           (\<exists>oc \<in> set (fst (cleanupStaleTransactions fl maxAge now date_ms envs s)).
              o_id oc = i \<and> succeeded oc)
           \<and> map_of (active (snd (cleanupStaleTransactions fl maxAge now date_ms envs s))) i = None)
        \<and> (\<forall>i. i \<in> set (map fst (active s)) \<and> can_roll_back envs s i \<longrightarrow>
           (\<exists>oc \<in> set (fst (abortAllTransactions envs s)). o_id oc = i \<and> succeeded oc)
           \<and> map_of (active (snd (abortAllTransactions envs s))) i = None))
   \<and> list_all (\<lambda>oc. succeeded oc \<longrightarrow>
          (\<exists>t. (o_id oc, t) \<in> set (active s)
             \<and> o_result oc = Some (t\<lparr>status := RolledBack,
                                       endTime := Some (iso_now (envs (o_id oc)))\<rparr>)))
        (fst (cleanupStaleTransactions fl maxAge now date_ms envs s)
           @ fst (abortAllTransactions envs s))
   \<and> objects (db (snd (cleanupStaleTransactions fl maxAge now date_ms envs s))) = objects (db s)
   \<and> objects (db (snd (abortAllTransactions envs s))) = objects (db s)
   \<and> (filter succeeded (fst (cleanupStaleTransactions fl maxAge now date_ms envs s)) = [] \<longrightarrow>
        files (db (snd (cleanupStaleTransactions fl maxAge now date_ms envs s))) = files (db s)
        \<and> meta (db (snd (cleanupStaleTransactions fl maxAge now date_ms envs s))) = meta (db s)
        \<and> HEAD (db (snd (cleanupStaleTransactions fl maxAge now date_ms envs s))) = HEAD (db s))
   \<and> (filter succeeded (fst (abortAllTransactions envs s)) = [] \<longrightarrow>
        files (db (snd (abortAllTransactions envs s))) = files (db s)
        \<and> meta (db (snd (abortAllTransactions envs s))) = meta (db s)
        \<and> HEAD (db (snd (abortAllTransactions envs s))) = HEAD (db s))
   \<and> (tracked (db s) \<longrightarrow>
        (\<forall>t. filter succeeded (fst (cleanupStaleTransactions fl maxAge now date_ms envs s)) \<noteq> []
            \<and> o_result (last (filter succeeded
                 (fst (cleanupStaleTransactions fl maxAge now date_ms envs s)))) = Some t \<longrightarrow>
           HEAD (db (snd (cleanupStaleTransactions fl maxAge now date_ms envs s)))
             = checkpointHash t
           \<and> files (db (snd (cleanupStaleTransactions fl maxAge now date_ms envs s)))
               = t_files (snapshot (objects (db s) ! checkpointHash t))
           \<and> meta (db (snd (cleanupStaleTransactions fl maxAge now date_ms envs s)))
               = t_meta (snapshot (objects (db s) ! checkpointHash t)))
        \<and> (\<forall>t. filter succeeded (fst (abortAllTransactions envs s)) \<noteq> []
            \<and> o_result (last (filter succeeded (fst (abortAllTransactions envs s)))) = Some t \<longrightarrow>
           HEAD (db (snd (abortAllTransactions envs s))) = checkpointHash t
           \<and> files (db (snd (abortAllTransactions envs s)))
               = t_files (snapshot (objects (db s) ! checkpointHash t))
           \<and> meta (db (snd (abortAllTransactions envs s)))
               = t_meta (snapshot (objects (db s) ! checkpointHash t))))"
proof -
  let ?C = "cleanupStaleTransactions fl maxAge now date_ms envs s"
  let ?A = "abortAllTransactions envs s"
  let ?stale = "staleTransactions fl now date_ms maxAge s"
  have C: "?C = rollback_each ''auto_rolled_back'' ''cleanup_error'' envs ?stale s"
    by (simp add: cleanupStaleTransactions_def)
  have A: "?A = rollback_each ''rolled_back'' ''error'' envs (map fst (active s)) s"
    by (simp add: abortAllTransactions_def)
  have indep: "\<exists>oc \<in> set (fst (rollback_each ok bad envs ids s)). o_id oc = i \<and> succeeded oc"
    if "distinct ids" "i \<in> set ids" "can_roll_back envs s i" for ok bad ids i
  proof -
    from that(3) obtain t where "map_of (active s) i = Some t" "status t = Active"
      "checkpointHash t < length (objects (db s))" "reset_fault (envs i) = None"
      by (auto simp: can_roll_back_def split: option.splits)
    then show ?thesis
      using that(1,2) by (intro rollback_each_independent [where envs = envs and t = t]) simp_all
  qed
  have c: "\<forall>i. i \<in> set ?stale \<and> can_roll_back envs s i \<longrightarrow>
           (\<exists>oc \<in> set (fst ?C). o_id oc = i \<and> succeeded oc)
           \<and> map_of (active (snd ?C)) i = None"
    if d: "distinct (map fst (active s))"
  proof (intro allI impI, elim conjE)
    fix i
    assume i: "i \<in> set ?stale" and r: "can_roll_back envs s i"
    have e: "\<exists>oc \<in> set (fst (rollback_each ''auto_rolled_back'' ''cleanup_error'' envs
                ?stale s)). o_id oc = i \<and> succeeded oc"
      by (rule indep [OF distinct_stale [OF d] i r])
    from e gone_when_succeeded [OF e]
    show "(\<exists>oc \<in> set (fst ?C). o_id oc = i \<and> succeeded oc) \<and> map_of (active (snd ?C)) i = None"
      unfolding C by (rule conjI)
  qed
  have a: "\<forall>i. i \<in> set (map fst (active s)) \<and> can_roll_back envs s i \<longrightarrow>
           (\<exists>oc \<in> set (fst ?A). o_id oc = i \<and> succeeded oc)
           \<and> map_of (active (snd ?A)) i = None"
    if d: "distinct (map fst (active s))"
  proof (intro allI impI, elim conjE)
    fix i
    assume i: "i \<in> set (map fst (active s))" and r: "can_roll_back envs s i"
    have e: "\<exists>oc \<in> set (fst (rollback_each ''rolled_back'' ''error'' envs
                (map fst (active s)) s)). o_id oc = i \<and> succeeded oc"
      by (rule indep [OF d i r])
    from e gone_when_succeeded [OF e]
    show "(\<exists>oc \<in> set (fst ?A). o_id oc = i \<and> succeeded oc) \<and> map_of (active (snd ?A)) i = None"
      unfolding A by (rule conjI)
  qed
  have holds: "list_all (\<lambda>oc. succeeded oc \<longrightarrow>
          (\<exists>t. (o_id oc, t) \<in> set (active s)
             \<and> o_result oc = Some (t\<lparr>status := RolledBack,
                                       endTime := Some (iso_now (envs (o_id oc)))\<rparr>)))
        (fst ?C @ fst ?A)"
    unfolding C A list_all_append by (intro conjI rollback_each_holds)
  have un_c: "filter succeeded (fst ?C) = [] \<longrightarrow>
        files (db (snd ?C)) = files (db s) \<and> meta (db (snd ?C)) = meta (db s)
        \<and> HEAD (db (snd ?C)) = HEAD (db s)"
    unfolding C using rollback_each_untouched by blast
  have un_a: "filter succeeded (fst ?A) = [] \<longrightarrow>
        files (db (snd ?A)) = files (db s) \<and> meta (db (snd ?A)) = meta (db s)
        \<and> HEAD (db (snd ?A)) = HEAD (db s)"
    unfolding A using rollback_each_untouched by blast
  have rev_c: "\<forall>t. filter succeeded (fst ?C) \<noteq> []
            \<and> o_result (last (filter succeeded (fst ?C))) = Some t \<longrightarrow>
           HEAD (db (snd ?C)) = checkpointHash t
           \<and> files (db (snd ?C)) = t_files (snapshot (objects (db s) ! checkpointHash t))
           \<and> meta (db (snd ?C)) = t_meta (snapshot (objects (db s) ! checkpointHash t))"
    if tr: "tracked (db s)"
    unfolding C by (intro allI impI, elim conjE) (rule rollback_each_reverted [OF tr])
  have rev_a: "\<forall>t. filter succeeded (fst ?A) \<noteq> []
            \<and> o_result (last (filter succeeded (fst ?A))) = Some t \<longrightarrow>
           HEAD (db (snd ?A)) = checkpointHash t
           \<and> files (db (snd ?A)) = t_files (snapshot (objects (db s) ! checkpointHash t))
           \<and> meta (db (snd ?A)) = t_meta (snapshot (objects (db s) ! checkpointHash t))"
    if tr: "tracked (db s)"
    unfolding A by (intro allI impI, elim conjE) (rule rollback_each_reverted [OF tr])
  show ?thesis
    apply (intro conjI)
    subgoal by (simp add: cleanupStaleTransactions_def rollback_each_ids)
    subgoal using stale_iff by blast
    subgoal by (simp add: abortAllTransactions_def rollback_each_ids)
    subgoal unfolding cleanupStaleTransactions_def by (rule rollback_each_outcomes)
    subgoal unfolding abortAllTransactions_def by (rule rollback_each_outcomes)
    subgoal unfolding cleanupStaleTransactions_def by (rule rollback_each_active)
    subgoal unfolding abortAllTransactions_def by (rule rollback_each_active)
    subgoal using c a by (intro impI conjI) assumption+
    subgoal by (rule holds)
    subgoal unfolding C by (rule rollback_each_objects)
    subgoal unfolding A by (rule rollback_each_objects)
    subgoal by (rule un_c)
    subgoal by (rule un_a)
    subgoal using rev_c rev_a by (intro impI conjI) assumption+
    done
qed

lemma db1_first: "snapshot (objects db1 ! 0) = \<lparr>t_files = [], t_meta = Some meta0\<rparr>"
  using safe_create_bob by (simp add: db1_def store_defs sample_defs)

lemma db1_files: "files db1 = [(''users'', [newRecord bob env0])] \<and> place db1 = place0"
proof -
  have "persist_obj (newRecord bob env0) = newRecord bob env0"
    by (rule json_safe_newRecord [OF safe_bob])
  then show ?thesis
    by (simp add: db1_def createRecord_def saveCollection_def getCollection_def Let_def
          dir_exists_def db0_def place0_def files_commitChanges [OF safe_create_bob]
          place_commitChanges [OF safe_create_bob])
qed

lemma tracked_db1: "tracked db1"
proof -
  have seen: "seen db1 ''users''"
    by (simp add: seen_def db1_files place0_def)
  have idx: "index db1 = \<lparr>t_files = [(''users'', [newRecord bob env0])], t_meta = meta db1\<rparr>"
    using db1_git seen by (simp add: worktree_def db1_files)
  have snap1: "snapshot (objects db1 ! 1) = index db1"
    using db1_git by simp
  have commits: "list_all (\<lambda>c. list_all (seen db1) (map fst (t_files (snapshot c)))) (objects db1)"
    unfolding list_all_length [where xs = "objects db1"]
  proof (intro allI impI)
    fix n
    assume "n < length (objects db1)"
    with db1_git have "n = 0 \<or> n = 1"
      by auto
    with db1_first snap1 idx seen
    show "list_all (seen db1) (map fst (t_files (snapshot (objects db1 ! n))))"
      by auto
  qed
  have "meta db1 = None \<or> t_meta (index db1) \<noteq> None"
    by (cases "meta db1") (simp_all add: idx)
  with seen idx commits show ?thesis
    by (simp add: tracked_def db1_files)
qed

theorem sweeps_attempt_each_and_collect_outcomes_witness:
  "distinct (map fst (active sys3))
   \<and> ''old'' \<in> set (staleTransactions (\<lambda>x. x) 1714557900000 date3 30 sys3)
   \<and> can_roll_back envs3 sys3 ''old''
   \<and> map o_id (fst (cleanupStaleTransactions (\<lambda>x. x) 30 1714557900000 date3 envs3 sys3))
       = [''old'', ''stuck'']
   \<and> (\<exists>oc \<in> set (fst (cleanupStaleTransactions (\<lambda>x. x) 30 1714557900000 date3 envs3 sys3)).
         o_id oc = ''old'' \<and> succeeded oc)
   \<and> map_of (active (snd (cleanupStaleTransactions (\<lambda>x. x) 30 1714557900000 date3 envs3 sys3)))
         ''old'' = None
   \<and> ''new'' \<in> set (map fst (active sys3))
   \<and> can_roll_back envs3 sys3 ''new''
   \<and> map o_id (fst (abortAllTransactions envs3 sys3)) = [''old'', ''stuck'', ''new'']
   \<and> (\<exists>oc \<in> set (fst (abortAllTransactions envs3 sys3)). o_id oc = ''new'' \<and> succeeded oc)
   \<and> tracked (db sys3)
   \<and> filter succeeded (fst (cleanupStaleTransactions (\<lambda>x. x) 30 1714557900000 date3 envs3 sys3))
       \<noteq> []
   \<and> o_result (last (filter succeeded
         (fst (cleanupStaleTransactions (\<lambda>x. x) 30 1714557900000 date3 envs3 sys3))))
       = Some ((tx_at ''old'' ''2024-05-01T09:00:00.000Z'')
                 \<lparr>status := RolledBack, endTime := Some ''2024-05-01T10:05:00.000Z''\<rparr>)
   \<and> HEAD (db sys3) = 1
   \<and> files (db sys3) = [(''users'', [newRecord bob env0])]
   \<and> HEAD (db (snd (cleanupStaleTransactions (\<lambda>x. x) 30 1714557900000 date3 envs3 sys3))) = 0
   \<and> files (db (snd (cleanupStaleTransactions (\<lambda>x. x) 30 1714557900000 date3 envs3 sys3))) = []
   \<and> objects (db (snd (cleanupStaleTransactions (\<lambda>x. x) 30 1714557900000 date3 envs3 sys3)))
       = objects (db sys3)"
proof -
  let ?now = "1714557900000 :: int"
  let ?fl = "\<lambda>x :: real. x"
  let ?C = "cleanupStaleTransactions ?fl 30 ?now date3 envs3 sys3"
  let ?old = "tx_at ''old'' ''2024-05-01T09:00:00.000Z''"
  let ?stuck = "tx_at ''stuck'' ''2024-05-01T09:00:00.000Z''"
  let ?done = "?old\<lparr>status := RolledBack, endTime := Some ''2024-05-01T10:05:00.000Z''\<rparr>"
  have d: "distinct (map fst (active sys3))"
    by (simp add: sys3_def)
  have st: "staleTransactions ?fl ?now date3 30 sys3 = [''old'', ''stuck'']"
    by (simp add: staleTransactions_def isStale_def date3_def sys3_def tx_at_def Let_def)
  have keys: "map fst (active sys3) = [''old'', ''stuck'', ''new'']"
    by (simp add: sys3_def)
  have old: "''old'' \<in> set (staleTransactions ?fl ?now date3 30 sys3)"
    by (simp add: st)
  have new: "''new'' \<in> set (map fst (active sys3))"
    by (simp add: keys)
  have r_old: "can_roll_back envs3 sys3 ''old''"
    using db1_git by (simp add: can_roll_back_def sys3_def tx_at_def envs3_def env1_def env0_def)
  have r_new: "can_roll_back envs3 sys3 ''new''"
    using db1_git by (simp add: can_roll_back_def sys3_def tx_at_def envs3_def env1_def env0_def)
  have tr: "tracked (db sys3)"
    by (simp add: sys3_def tracked_db1)
  have m_old: "map_of (active sys3) ''old'' = Some ?old"
    by (simp add: sys3_def)
  have f_old: "fst (rollbackTransaction ''old'' (envs3 ''old'') sys3) = Inr ?done"
    using db1_git
    by (subst rollback_returns [OF m_old])
       (simp_all add: tx_at_def sys3_def envs3_def env1_def env0_def)
  let ?s1 = "snd (rollbackTransaction ''old'' (envs3 ''old'') sys3)"
  have "map_of (active ?s1) ''stuck'' = map_of (active sys3) ''stuck''"
    by (rule rollback_other) simp
  then have m_stuck: "map_of (active ?s1) ''stuck'' = Some ?stuck"
    by (simp add: sys3_def)
  have f_stuck: "fst (rollbackTransaction ''stuck'' (envs3 ''stuck'') ?s1)
                   = Inl (ExecError ''fatal: index.lock exists'')"
    by (subst rollback_fault [OF m_stuck]) (simp_all add: tx_at_def envs3_def)
  have res: "fst ?C =
      [\<lparr>o_id = ''old'', o_status = ''auto_rolled_back'', o_result = Some ?done, o_error = None\<rparr>,
       \<lparr>o_id = ''stuck'', o_status = ''cleanup_error'', o_result = None,
        o_error = Some (ExecError ''fatal: index.lock exists'')\<rparr>]"
    unfolding cleanupStaleTransactions_def st rollback_each_fst f_old f_stuck by simp
  have ne: "filter succeeded (fst ?C) \<noteq> []"
    by (simp add: res)
  have last: "o_result (last (filter succeeded (fst ?C))) = Some ?done"
    by (simp add: res)
  have before: "HEAD (db sys3) = 1" "files (db sys3) = [(''users'', [newRecord bob env0])]"
    using db1_git by (simp_all add: sys3_def db1_files)
  note T = sweeps_attempt_each_and_collect_outcomes [of ?fl 30 ?now date3 envs3 sys3]
  note ids_c = T [THEN conjunct1]
  note ids_a = T [THEN conjunct2, THEN conjunct2, THEN conjunct1]
  note T8 = T [THEN conjunct2, THEN conjunct2, THEN conjunct2, THEN conjunct2, THEN conjunct2,
               THEN conjunct2, THEN conjunct2]
  note ind = T8 [THEN conjunct1, THEN mp, OF d]
  note ind_c = ind [THEN conjunct1, THEN spec, THEN mp, OF conjI [OF old r_old]]
  note ind_a = ind [THEN conjunct2, THEN spec, THEN mp, OF conjI [OF new r_new]]
  note objs = T8 [THEN conjunct2, THEN conjunct2, THEN conjunct1]
  note rev = T8 [THEN conjunct2, THEN conjunct2, THEN conjunct2, THEN conjunct2, THEN conjunct2,
                 THEN conjunct2, THEN mp, OF tr, THEN conjunct1, THEN spec, THEN mp,
                 OF conjI [OF ne last]]
  from ids_c have 1: "map o_id (fst ?C) = [''old'', ''stuck'']"
    by (simp only: st)
  from ids_a have 2: "map o_id (fst (abortAllTransactions envs3 sys3)) = [''old'', ''stuck'', ''new'']"
    by (simp only: keys)
  from rev have 3: "HEAD (db (snd ?C)) = 0" "files (db (snd ?C)) = []"
    by (simp_all add: tx_at_def sys3_def db1_first)
  from d old r_old 1 ind_c [THEN conjunct1] ind_c [THEN conjunct2] new r_new 2
    ind_a [THEN conjunct1] tr ne last before 3 objs
  show ?thesis by (intro conjI)
qed

section \<open>Rollback to the checkpoint\<close>

subsection \<open>The commits only grow\<close>

lemma keeps_commits_refl [simp]: "keeps_commits d d"
  by (simp add: keeps_commits_def)






text \<open>The messages of the store are safe when the id and the collection name are.\<close>

lemma safe_messages:
  assumes "shell_safe (js_string i)" "shell_safe coll"
  shows "shell_safe (descr_text (MsgCreate i coll))" "shell_safe (descr_text (MsgUpdate i coll))"
    "shell_safe (descr_text (MsgDelete i coll))"
  using assms by simp_all










subsection \<open>The store keeps every file tracked\<close>















subsection \<open>One call\<close>




















subsection \<open>Any sequence of calls\<close>



subsection \<open>The log\<close>




subsection \<open>The rollback law\<close>











section \<open>The Collection Store\<close>

subsection \<open>A directory whose \<^verbatim>\<open>data/\<close> has gone\<close>






subsection \<open>Reading and updating on the samples\<close>

lemma nth_persisted:
  "n < length (getCollection c d) \<Longrightarrow> persist_obj (getCollection c d ! n) = getCollection c d ! n"
  using getCollection_persisted [of c d] by (metis nth_map)


lemma users_after_eve:
  "getCollection ''users'' (snd (createRecord ''users'' eve env1 db1))
     = [newRecord bob env0, newRecord eve env1]"
  by (simp add: createRecord_collection [OF dir_db1 safe_create_eve] users_db1
        json_safe_newRecord safe_eve)

lemma users_after_dora:
  "getCollection ''users'' (snd (createRecord ''users'' dora env0 db0))
     = [persist_obj (newRecord dora env0)]"
  by (simp add: createRecord_collection [OF dir_db0 safe_create_dora] users_db0)

lemma dash_in_generateId: "CHR ''-'' \<in> set (generateId e)"
  by (simp add: generateId_def)





text \<open>What the stored form of a merged record holds.\<close>

lemma get_stored_merged:
  assumes "n < length (getCollection coll d)" "id_is i (getCollection coll d ! n)"
  shows "get_prop (persist_obj (merged (getCollection coll d ! n) i data e)) k =
     (if k = ''updatedAt'' then Some (JStr (iso_now e))
      else if k = ''id'' then Some i
      else (case get_prop data k of
              Some v \<Rightarrow> Some (persist v)
            | None \<Rightarrow> get_prop (getCollection coll d ! n) k))"
proof -
  let ?old = "getCollection coll d ! n"
  from nth_persisted [OF assms(1)] have p: "persist_obj ?old = ?old" .
  with assms(2) have i: "persist i = i"
    using id_is_persisted [of i ?old] by simp
  have o: "map_option persist (get_prop ?old k) = get_prop ?old k"
    using get_persist_obj [of ?old k] p by simp
  show ?thesis
    by (simp add: get_persist_obj get_merged i o split: option.splits)
qed

subsection \<open>create\<close>




subsection \<open>update\<close>







subsection \<open>Which fields the caller decides\<close>




subsection \<open>Ids\<close>

lemma ids_of_update:
  assumes safe: "shell_safe (descr_text (MsgUpdate i coll))"
  shows "ids_of (getCollection coll (snd (updateRecord coll i data e d)))
           = ids_of (getCollection coll d)"
proof (cases "findIndex (id_is i) (getCollection coll d)")
  case None
  then show ?thesis by (simp add: updateRecord_def)
next
  case (Some n)
  let ?rs = "getCollection coll d"
  from findIndex_Some [OF Some] have n: "n < length ?rs" and old: "id_is i (?rs ! n)"
    by simp_all
  from id_is_get [OF old] n have "(ids_of ?rs)[n := Some i] = ids_of ?rs"
    by (metis ids_of_def list_update_id nth_map)
  with updateRecord_found [OF Some safe, of data e coll] show ?thesis
    by (simp add: ids_of_def map_update get_stored_merged [OF n old])
qed

lemma truthy_persist: "truthy v \<Longrightarrow> \<forall>b. v \<noteq> JInfinity b \<Longrightarrow> truthy (persist v)"
  by (cases v) auto

lemma ids_after_create:
  assumes "shell_safe (descr_text (MsgCreate (new_id data e) coll))"
  shows "ids_of (getCollection coll (snd (createRecord coll data e d))) =
     (if dir_exists d coll then ids_of (getCollection coll d) @ [Some (persist (new_id data e))]
      else ids_of (getCollection coll d))"
proof (cases "dir_exists d coll")
  case True
  from createRecord_collection [OF True assms] True show ?thesis
    by (simp add: ids_of_def get_persist_obj get_newRecord)
next
  case False
  then show ?thesis
    by (simp add: createRecord_enoent)
qed

text \<open>
  C2, as the claim states it, fails.  A create whose fields carry the id of a record already
  in the collection adds a second record with that id.  And a create whose fields carry the
  number \<^verbatim>\<open>1e999\<close> as id stores a record whose id is \<^verbatim>\<open>null\<close>.
\<close>

theorem create_duplicates_supplied_id:
  "distinct (ids_of (getCollection ''users'' db1))
   \<and> get_prop eve ''id'' = Some (JStr ''u1'')
   \<and> \<not> distinct (ids_of (getCollection ''users'' (snd (createRecord ''users'' eve env1 db1))))
   \<and> get_prop dora ''id'' = Some (JInfinity True)
   \<and> ids_of (getCollection ''users'' (snd (createRecord ''users'' dora env0 db0))) = [Some JNull]
   \<and> \<not> truthy JNull"
  using dora_stored
  by (simp add: users_after_eve users_after_dora users_db1 ids_of_def get_newRecord id_bob id_eve)
     (simp add: eve_def dora_def get_prop_def)

text \<open>
  C2, amended.  The commit messages are taken to hold no character that the shell reads.  If
  the ids of the stored records of a collection are pairwise different and the id of the new
  record, as JSON text holds it, is not among them, the ids are pairwise different after the
  create.  The id of the record a create builds is the caller's when
  truthy, else the generated one; it is truthy, so it is not the empty string, and so is the
  id stored unless the caller's id is a number that is not finite, which is stored as
  \<^verbatim>\<open>null\<close>.  An update leaves the id of every record of the collection as it was.
\<close>

theorem ids_stay_distinct_when_new_id_is_fresh:
  "(shell_safe (descr_text (MsgCreate (new_id data e) coll))
      \<and> distinct (ids_of (getCollection coll d))
      \<and> Some (persist (new_id data e)) \<notin> set (ids_of (getCollection coll d)) \<longrightarrow>
        distinct (ids_of (getCollection coll (snd (createRecord coll data e d)))))
   \<and> get_prop (newRecord data e) ''id'' = Some (new_id data e)
   \<and> truthy (new_id data e)
   \<and> new_id data e \<noteq> JStr []
   \<and> get_prop (persist_obj (newRecord data e)) ''id'' = Some (persist (new_id data e))
   \<and> ((\<forall>b. new_id data e \<noteq> JInfinity b) \<longrightarrow>
         truthy (persist (new_id data e)) \<and> persist (new_id data e) \<noteq> JStr [])
   \<and> (json_val (new_id data e) \<longrightarrow> persist (new_id data e) = new_id data e)
   \<and> (shell_safe (descr_text (MsgUpdate i coll)) \<longrightarrow>
         ids_of (getCollection coll (snd (updateRecord coll i upd e d)))
           = ids_of (getCollection coll d))"
proof -
  have ne: "new_id data e \<noteq> JStr []"
    using truthy_new_id [of data e] by auto
  have st: "(\<forall>b. new_id data e \<noteq> JInfinity b) \<longrightarrow>
         truthy (persist (new_id data e)) \<and> persist (new_id data e) \<noteq> JStr []"
  proof
    assume "\<forall>b. new_id data e \<noteq> JInfinity b"
    from truthy_persist [OF truthy_new_id this] have "truthy (persist (new_id data e))" .
    then show "truthy (persist (new_id data e)) \<and> persist (new_id data e) \<noteq> JStr []"
      by auto
  qed
  have di: "shell_safe (descr_text (MsgCreate (new_id data e) coll))
      \<and> distinct (ids_of (getCollection coll d))
      \<and> Some (persist (new_id data e)) \<notin> set (ids_of (getCollection coll d)) \<longrightarrow>
        distinct (ids_of (getCollection coll (snd (createRecord coll data e d))))"
  proof (intro impI, elim conjE)
    assume safe: "shell_safe (descr_text (MsgCreate (new_id data e) coll))"
      and "distinct (ids_of (getCollection coll d))"
      and "Some (persist (new_id data e)) \<notin> set (ids_of (getCollection coll d))"
    then show "distinct (ids_of (getCollection coll (snd (createRecord coll data e d))))"
      unfolding ids_after_create [OF safe] by simp
  qed
  have up: "shell_safe (descr_text (MsgUpdate i coll)) \<longrightarrow>
         ids_of (getCollection coll (snd (updateRecord coll i upd e d)))
           = ids_of (getCollection coll d)"
    using ids_of_update by blast
  have js: "json_val (new_id data e) \<longrightarrow> persist (new_id data e) = new_id data e"
    by (simp add: json_val_def)
  have g: "get_prop (newRecord data e) ''id'' = Some (new_id data e)"
    "get_prop (persist_obj (newRecord data e)) ''id'' = Some (persist (new_id data e))"
    by (simp_all add: get_persist_obj get_newRecord)
  from di g(1) truthy_new_id [of data e] ne g(2) st js up
  show ?thesis
    by (intro conjI)
qed

theorem ids_stay_distinct_when_new_id_is_fresh_witness:
  "shell_safe (descr_text (MsgCreate (new_id alice env1) ''users''))
   \<and> distinct (ids_of (getCollection ''users'' db1))
   \<and> Some (persist (new_id alice env1)) \<notin> set (ids_of (getCollection ''users'' db1))
   \<and> distinct (ids_of (getCollection ''users'' (snd (createRecord ''users'' alice env1 db1))))
   \<and> shell_safe (descr_text (MsgUpdate (JStr ''u1'') ''users''))
   \<and> ids_of (getCollection ''users''
         (snd (updateRecord ''users'' (JStr ''u1'') [(''id'', JStr ''u9'')] env1 db1)))
       = [Some (JStr ''u1'')]
   \<and> list_all (\<lambda>b. new_id alice env1 \<noteq> JInfinity b) [True, False]
   \<and> truthy (persist (new_id alice env1))
   \<and> json_val (new_id alice env1)
   \<and> persist (new_id alice env1) = new_id alice env1"
proof -
  have i: "new_id alice env1 = JStr (generateId env1)"
    by (simp add: new_id_def alice_def get_prop_def)
  have "generateId env1 \<noteq> ''u1''"
    using dash_in_generateId [of env1] by auto
  then have h: "distinct (ids_of (getCollection ''users'' db1))
      \<and> Some (persist (new_id alice env1)) \<notin> set (ids_of (getCollection ''users'' db1))"
    by (simp add: users_db1 ids_of_def get_newRecord id_bob i)
  have fin: "\<forall>b. new_id alice env1 \<noteq> JInfinity b"
    by (simp add: i)
  have jv: "json_val (new_id alice env1)"
    by (simp add: i json_val_def)
  note T = ids_stay_distinct_when_new_id_is_fresh
             [of alice env1 "''users''" db1 "JStr ''u1''" "[(''id'', JStr ''u9'')]"]
  from T [THEN conjunct2, THEN conjunct2, THEN conjunct2, THEN conjunct2, THEN conjunct2,
          THEN conjunct2, THEN conjunct2, THEN mp, OF safe_update_u1]
  have u: "ids_of (getCollection ''users''
         (snd (updateRecord ''users'' (JStr ''u1'') [(''id'', JStr ''u9'')] env1 db1)))
       = [Some (JStr ''u1'')]"
    by (simp add: users_db1 ids_of_def get_newRecord id_bob)
  from T [THEN conjunct1, THEN mp, OF conjI [OF safe_create_alice h]]
  have d: "distinct (ids_of (getCollection ''users'' (snd (createRecord ''users'' alice env1 db1))))" .
  from T [THEN conjunct2, THEN conjunct2, THEN conjunct2, THEN conjunct2, THEN conjunct2,
          THEN conjunct1, THEN mp, OF fin, THEN conjunct1]
  have t: "truthy (persist (new_id alice env1))" .
  from T [THEN conjunct2, THEN conjunct2, THEN conjunct2, THEN conjunct2, THEN conjunct2,
          THEN conjunct2, THEN conjunct1, THEN mp, OF jv]
  have p: "persist (new_id alice env1) = new_id alice env1" .
  from fin have la: "list_all (\<lambda>b. new_id alice env1 \<noteq> JInfinity b) [True, False]"
    by simp
  from safe_create_alice h [THEN conjunct1] h [THEN conjunct2] d safe_update_u1 u la t jv p
  show ?thesis
    by (intro conjI)
qed

subsection \<open>Reading back\<close>





end
